theory Spec2Isabelle
  imports Main "HOL-Library.Sublist"
begin

section \<open>JavaScript values used by the two source files\<close>

text \<open>
  Strings are lists of 8-bit code units, which is what Node hands to the program for a
  request line and for header values. An optional string stands for a JavaScript value
  that is a string or \<^verbatim>\<open>undefined\<close>.
\<close>

text \<open>JavaScript truthiness of a string-or-undefined value: only a non-empty string is truthy.\<close>

fun truthy :: "string option \<Rightarrow> bool" where
  "truthy None = False"
| "truthy (Some s) = (s \<noteq> [])"

text \<open>\<^verbatim>\<open>a || b\<close> on such values.\<close>

definition js_or :: "string option \<Rightarrow> string option \<Rightarrow> string option" where
  "js_or a b = (if truthy a then a else b)"

text \<open>\<^verbatim>\<open>String.prototype.includes\<close>: the argument occurs as a contiguous substring.\<close>

fun str_includes :: "string \<Rightarrow> string \<Rightarrow> bool" where
  "str_includes [] sub = (sub = [])"
| "str_includes (c # cs) sub = (prefix sub (c # cs) \<or> str_includes cs sub)"

text \<open>
  \<^verbatim>\<open>String.prototype.toLowerCase\<close> on 8-bit code units, as far as the ASCII range goes:
  no code unit above 127 is mapped into the ASCII range, so comparisons with ASCII
  literals are not affected by leaving those units alone.
\<close>

definition lower_char :: "char \<Rightarrow> char" where
  "lower_char c =
     (let n = (of_char c :: nat) in if 65 \<le> n \<and> n \<le> 90 then char_of (n + 32) else c)"

definition toLowerCase :: "string \<Rightarrow> string" where
  "toLowerCase s = map lower_char s"

text \<open>\<^verbatim>\<open>s.slice(a, b)\<close> for \<^verbatim>\<open>0 <= a <= b <= s.length\<close>.\<close>

definition slice :: "string \<Rightarrow> nat \<Rightarrow> nat \<Rightarrow> string" where
  "slice s a b = take (b - a) (drop a s)"

section \<open>The request and the configuration\<close>

text \<open>
  The fields of the Express request object that the two files read. Header names are the
  lower-cased names Node stores; \<open>cookies\<close> is \<^verbatim>\<open>undefined\<close> (\<open>None\<close>) when no cookie
  parser ran.
\<close>

record request =
  path :: string
  headers :: "string \<rightharpoonup> string"
  cookies :: "(string \<rightharpoonup> string) option"
  ip :: "string option"
  remoteAddress :: "string option"

text \<open>
  Modelled from the spec: \<^verbatim>\<open>config.json\<close> is not among the sources. Section 6 of the
  specification gives its \<^verbatim>\<open>downloadCheck\<close> structure: four boolean flags and the list
  \<^verbatim>\<open>allowedRefDomains\<close>. The whole structure may be absent (\<open>None\<close>), and the list is
  \<open>None\<close> when the configured value is not an array.
\<close>

record downloadCheck_config =
  enableReferrer :: bool
  enableUserAgent :: bool
  enableBrowserFeature :: bool
  enableJsCheck :: bool
  allowedRefDomains :: "string list option"

record config =
  downloadCheck :: "downloadCheck_config option"

text \<open>\<^verbatim>\<open>config.downloadCheck?.flag\<close>: falsy when the structure is absent.\<close>

definition flag :: "config \<Rightarrow> (downloadCheck_config \<Rightarrow> bool) \<Rightarrow> bool" where
  "flag cfg f = (case downloadCheck cfg of None \<Rightarrow> False | Some dc \<Rightarrow> f dc)"

text \<open>
  Express's \<^verbatim>\<open>req.get(name)\<close>: the header stored under the lower-cased name, except that
  both spellings of the referrer name read \<^verbatim>\<open>headers.referrer || headers.referer\<close>.
\<close>

definition req_get :: "request \<Rightarrow> string \<Rightarrow> string option" where
  "req_get req name =
     (let lc = toLowerCase name in
      if lc = ''referer'' \<or> lc = ''referrer''
      then js_or (headers req ''referrer'') (headers req ''referer'')
      else headers req lc)"

section \<open>\<^verbatim>\<open>path.extname\<close>\<close>

text \<open>
  Node's POSIX \<^verbatim>\<open>path.extname\<close>, with its backwards scan written as a recursion on the
  number of characters still to visit. The sentinel \<open>-1\<close> of the original is kept.
\<close>

record ext_state =
  startDot :: int
  startPart :: int
  endPos :: int
  matchedSlash :: bool
  preDotState :: int

definition ext_init :: ext_state where
  "ext_init = \<lparr>startDot = -1, startPart = 0, endPos = -1, matchedSlash = True, preDotState = 0\<rparr>"

fun ext_scan :: "string \<Rightarrow> nat \<Rightarrow> ext_state \<Rightarrow> ext_state" where
  "ext_scan p 0 s = s"
| "ext_scan p (Suc i) s =
     (let code = p ! i in
      if code = CHR ''/'' then
        (if \<not> matchedSlash s then s\<lparr>startPart := int i + 1\<rparr>
         else ext_scan p i s)
      else
        (let s1 = (if endPos s = -1 then s\<lparr>matchedSlash := False, endPos := int i + 1\<rparr> else s);
             s2 = (if code = CHR ''.'' then
                     (if startDot s1 = -1 then s1\<lparr>startDot := int i\<rparr>
                      else if preDotState s1 \<noteq> 1 then s1\<lparr>preDotState := 1\<rparr>
                      else s1)
                   else if startDot s1 \<noteq> -1 then s1\<lparr>preDotState := -1\<rparr>
                   else s1)
         in ext_scan p i s2))"

definition extname :: "string \<Rightarrow> string" where
  "extname p =
     (let s = ext_scan p (length p) ext_init in
      if startDot s = -1 \<or> endPos s = -1 \<or> preDotState s = 0 \<or>
         (preDotState s = 1 \<and> startDot s = endPos s - 1 \<and> startDot s = startPart s + 1)
      then []
      else slice p (nat (startDot s)) (nat (endPos s)))"

section \<open>The download gate (\<^verbatim>\<open>check-download.js\<close>)\<close>

definition fileExts :: "string list" where
  "fileExts = [''.zip'', ''.rar'', ''.7z'', ''.tar'', ''.gz'', ''.exe'', ''.pdf'', ''.doc'',
     ''.docx'', ''.xls'', ''.xlsx'', ''.ppt'', ''.pptx'', ''.jpg'', ''.jpeg'', ''.png'',
     ''.gif'', ''.mp4'', ''.mp3'', ''.apk'', ''.iso'', ''.txt'']"

text \<open>\<^verbatim>\<open>req.headers[name] || ''\<close>.\<close>

definition header_or_empty :: "request \<Rightarrow> string \<Rightarrow> string" where
  "header_or_empty req name = (case js_or (headers req name) (Some []) of Some v \<Rightarrow> v | None \<Rightarrow> [])"

definition isFileDownload :: "request \<Rightarrow> bool" where
  "isFileDownload req =
     (let ext = toLowerCase (extname (path req)) in
      if ext \<in> set fileExts then True
      else
        let accept = header_or_empty req ''accept'' in
        if str_includes accept ''application/octet-stream'' \<or> str_includes accept ''attachment''
        then True
        else
          let disposition = header_or_empty req ''content-disposition'' in
          if str_includes disposition ''attachment'' then True else False)"

text \<open>
  \<^verbatim>\<open>checkModernBrowserFeatures\<close>: the running score, then the comparison with
  \<^verbatim>\<open>minScore\<close>. A header counts when its value is truthy.
\<close>

definition b2n :: "bool \<Rightarrow> nat" where
  "b2n b = (if b then 1 else 0)"

definition header_has :: "request \<Rightarrow> string \<Rightarrow> string \<Rightarrow> bool" where
  "header_has req name sub =
     (case headers req name of None \<Rightarrow> False | Some v \<Rightarrow> v \<noteq> [] \<and> str_includes v sub)"

definition featureScore :: "request \<Rightarrow> nat" where
  "featureScore req =
       b2n (header_has req ''accept'' ''text/html'')
     + b2n (header_has req ''accept'' ''image/webp'')
     + b2n (truthy (headers req ''accept-language''))
     + b2n (truthy (headers req ''accept-encoding'')
            \<and> header_has req ''accept-encoding'' ''gzip''
            \<and> header_has req ''accept-encoding'' ''deflate'')
     + b2n (truthy (headers req ''sec-fetch-dest''))
     + b2n (truthy (headers req ''sec-fetch-mode''))
     + b2n (truthy (headers req ''sec-fetch-site''))
     + b2n (truthy (headers req ''sec-ch-ua''))
     + b2n (headers req ''connection'' = Some ''keep-alive'')
     + b2n (headers req ''upgrade-insecure-requests'' = Some ''1'')
     + b2n (truthy (headers req ''cache-control''))"

definition minScore :: nat where
  "minScore = 5"

definition checkModernBrowserFeatures :: "request \<Rightarrow> bool" where
  "checkModernBrowserFeatures req = (featureScore req \<ge> minScore)"

text \<open>
  The thirteen patterns of \<^verbatim>\<open>blockedUserAgents\<close>, each a literal with the flag \<^verbatim>\<open>i\<close>;
  \<open>regex_test_i\<close> is \<^verbatim>\<open>/literal/i.test(s)\<close>.
\<close>

definition blockedUserAgents :: "string list" where
  "blockedUserAgents = [''wget'', ''curl'', ''IDM'', ''Downloader'', ''libwww-perl'', ''python'',
     ''node-fetch'', ''axios'', ''got'', ''superagent'', ''bot'', ''crawler'', ''spider'']"

definition regex_test_i :: "string \<Rightarrow> string \<Rightarrow> bool" where
  "regex_test_i literal s = str_includes (toLowerCase s) (toLowerCase literal)"

text \<open>
  The five patterns of \<^verbatim>\<open>modernBrowsers\<close> have the shape \<^verbatim>\<open>/Token\/([0-9]+)/i\<close>.
  The flag \<^verbatim>\<open>i\<close> compares letters without regard to case, which is matching the
  lower-cased literal against the lower-cased subject; digits and positions are the same in
  both. \<open>match_here\<close> tries the literal at the start of a string and yields the captured
  digits (the longest run, since \<^verbatim>\<open>+\<close> is greedy); \<open>match_first\<close> tries each start
  position from the left; \<open>str_match\<close> is \<^verbatim>\<open>s.match(pattern)\<close>, which yields the capture
  of the leftmost position where the pattern matches.
\<close>

definition modernBrowsers :: "string list" where
  "modernBrowsers = [''Chrome'', ''Firefox'', ''Safari'', ''Edg'', ''OPR'']"

definition is_digit :: "char \<Rightarrow> bool" where
  "is_digit c = (let n = (of_char c :: nat) in 48 \<le> n \<and> n \<le> 57)"

definition match_here :: "string \<Rightarrow> string \<Rightarrow> string option" where
  "match_here lit s =
     (if prefix lit s
      then (let ds = takeWhile is_digit (drop (length lit) s) in
            if ds = [] then None else Some ds)
      else None)"

fun match_first :: "string \<Rightarrow> string \<Rightarrow> string option" where
  "match_first lit [] = match_here lit []"
| "match_first lit (c # cs) =
     (case match_here lit (c # cs) of
        Some ds \<Rightarrow> Some ds
      | None \<Rightarrow> match_first lit cs)"

definition str_match :: "string \<Rightarrow> string \<Rightarrow> string option" where
  "str_match token s = match_first (toLowerCase token @ ''/'') (toLowerCase s)"

text \<open>
  \<^verbatim>\<open>parseInt\<close> on a non-empty string of decimal digits: the number they write. JavaScript
  rounds a long run of digits to a floating-point number, which lies on the same side of 70.
\<close>

definition parseInt :: "string \<Rightarrow> nat" where
  "parseInt ds = foldl (\<lambda>n c. 10 * n + (of_char c - 48)) 0 ds"

definition isValidBrowser :: "string option \<Rightarrow> bool" where
  "isValidBrowser userAgent =
     (case userAgent of
        None \<Rightarrow> False
      | Some ua \<Rightarrow>
          if ua = [] then False
          else if list_ex (\<lambda>pattern. regex_test_i pattern ua) blockedUserAgents then False
          else list_ex (\<lambda>pattern.
                 case str_match pattern ua of
                   None \<Rightarrow> False
                 | Some ds \<Rightarrow> parseInt ds \<ge> 70) modernBrowsers)"

text \<open>
  The three outcomes of the middleware: \<open>Allow\<close> is the call of \<^verbatim>\<open>next()\<close>, \<open>Deny\<close> the
  403 response carrying the reason of the failing step, \<open>Challenge\<close> the page that sets
  the cookie \<^verbatim>\<open>jsEnabled\<close> and reloads. The three reasons stand for the three distinct
  reason strings of the source.
\<close>

datatype reason = UserAgentReason | BrowserFeatureReason | ReferrerReason

datatype decision = Allow | Deny reason | Challenge

definition referrer_of :: "request \<Rightarrow> string option" where
  "referrer_of req = js_or (req_get req ''Referrer'') (req_get req ''Referer'')"

definition referrer_allowed :: "config \<Rightarrow> request \<Rightarrow> bool" where
  "referrer_allowed cfg req =
     (case downloadCheck cfg of
        None \<Rightarrow> False
      | Some dc \<Rightarrow>
          enableReferrer dc \<and>
          (case referrer_of req of
             None \<Rightarrow> False
           | Some referrer \<Rightarrow>
               referrer \<noteq> [] \<and>
               (case allowedRefDomains dc of
                  None \<Rightarrow> False
                | Some domains \<Rightarrow>
                    list_ex (\<lambda>domain. str_includes referrer domain) domains)))"

definition hasJsCheck :: "request \<Rightarrow> bool" where
  "hasJsCheck req =
     (case cookies req of None \<Rightarrow> False | Some cs \<Rightarrow> truthy (cs ''jsEnabled''))"

definition validateDownloadRequest :: "config \<Rightarrow> request \<Rightarrow> decision" where
  "validateDownloadRequest cfg req =
     (if \<not> isFileDownload req then Allow
      else
        let userAgent = req_get req ''User-Agent'';
            referrer = referrer_of req
        in
        if referrer_allowed cfg req then Allow
        else if flag cfg enableUserAgent \<and> \<not> isValidBrowser userAgent then Deny UserAgentReason
        else if flag cfg enableBrowserFeature \<and> \<not> checkModernBrowserFeatures req
          then Deny BrowserFeatureReason
        else if flag cfg enableReferrer \<and> \<not> truthy referrer
                \<and> \<not> str_includes (path req) ''index.html''
          then Deny ReferrerReason
        else if flag cfg enableJsCheck \<and> \<not> hasJsCheck req then Challenge
        else Allow)"

section \<open>The address-information cache (\<^verbatim>\<open>hosting.js\<close>)\<close>

text \<open>
  A JavaScript \<^verbatim>\<open>Map\<close> is a list of key-value pairs in insertion order, which is the order
  its iteration follows: \<^verbatim>\<open>set\<close> on a key already present replaces the value in place, on
  a new key it appends; \<^verbatim>\<open>get\<close> yields \<open>None\<close> for \<^verbatim>\<open>undefined\<close>.
\<close>

fun map_set :: "('k \<times> 'v) list \<Rightarrow> 'k \<Rightarrow> 'v \<Rightarrow> ('k \<times> 'v) list" where
  "map_set [] k v = [(k, v)]"
| "map_set ((k', v') # m) k v = (if k' = k then (k, v) # m else (k', v') # map_set m k v)"

definition map_delete :: "('k \<times> 'v) list \<Rightarrow> 'k \<Rightarrow> ('k \<times> 'v) list" where
  "map_delete m k = filter (\<lambda>(k', v'). k' \<noteq> k) m"

definition map_get :: "('k \<times> 'v) list \<Rightarrow> 'k \<Rightarrow> 'v option" where
  "map_get m k = map_of m k"

definition map_has :: "('k \<times> 'v) list \<Rightarrow> 'k \<Rightarrow> bool" where
  "map_has m k = (map_of m k \<noteq> None)"

definition map_size :: "('k \<times> 'v) list \<Rightarrow> nat" where
  "map_size m = length m"

definition map_keys :: "('k \<times> 'v) list \<Rightarrow> 'k list" where
  "map_keys m = map fst m"

text \<open>
  The placeholder \<^verbatim>\<open>getRealIP\<close> returns when it finds no address: two CJK characters
  followed by the letters IP, written here as the bytes of its UTF-8 encoding. In the
  program the placeholder differs from every header value, since its first two code units
  lie above 255; here a forwarded-for header holding these eight bytes would be the same
  key. No statement below uses more of the placeholder than that it is not empty.
\<close>

definition unknownIP :: string where
  "unknownIP = map char_of [230, 156, 170, 231, 159, 165 :: nat] @ ''IP''"

text \<open>\<^verbatim>\<open>String.prototype.trim\<close> on 8-bit code units.\<close>

definition is_space :: "char \<Rightarrow> bool" where
  "is_space c = ((of_char c :: nat) \<in> {9, 10, 11, 12, 13, 32, 160})"

definition trim :: "string \<Rightarrow> string" where
  "trim s = rev (dropWhile is_space (rev (dropWhile is_space s)))"

definition getRealIP :: "request \<Rightarrow> string" where
  "getRealIP req =
     (let ip0 = js_or (js_or (js_or (headers req ''x-forwarded-for'') (headers req ''x-real-ip''))
                  (ip req)) (remoteAddress req);
          ip1 = (case ip0 of
                   None \<Rightarrow> None
                 | Some a \<Rightarrow>
                     if a \<noteq> [] \<and> str_includes a '',''
                     then Some (trim (takeWhile (\<lambda>c. c \<noteq> CHR '','') a))
                     else Some a);
          ip2 = (case ip1 of
                   None \<Rightarrow> None
                 | Some a \<Rightarrow>
                     if a \<noteq> [] \<and> take 7 a = ''::ffff:'' then Some (drop 7 a) else Some a)
      in case js_or ip2 (Some unknownIP) of None \<Rightarrow> unknownIP | Some a \<Rightarrow> a)"

text \<open>
  The value stored for an address: the three fields read from the provider's answer, or
  \<open>None\<close> for the \<^verbatim>\<open>null\<close> stored after a failed call.
\<close>

record ipInfo =
  country :: "string option"
  city :: "string option"
  region :: "string option"

text \<open>
  What the \<^verbatim>\<open>try\<close> block gets from \<^verbatim>\<open>axios.get\<close> and the destructuring of its data: the
  three fields, or an exception.
\<close>

datatype response = Failed | Data ipInfo

text \<open>
  The two module-level maps, and the list of addresses for which a request to the provider
  was sent (latest last), which makes the external call observable.
\<close>

record geo_cache =
  ipInfoCache :: "(string \<times> ipInfo option) list"
  ipAccessTimes :: "(string \<times> int) list"
  requested :: "string list"

definition empty_cache :: geo_cache where
  "empty_cache = \<lparr>ipInfoCache = [], ipAccessTimes = [], requested = []\<rparr>"

definition MAX_CACHE_SIZE :: nat where
  "MAX_CACHE_SIZE = 100"

text \<open>
  The scan for the oldest entry; \<open>None\<close> for \<open>oldestTime\<close> is the initial
  \<^verbatim>\<open>Infinity\<close>, below which every time lies.
\<close>

fun oldest_scan ::
  "(string \<times> int) list \<Rightarrow> string option \<Rightarrow> int option \<Rightarrow> string option \<times> int option" where
  "oldest_scan [] oldestIp oldestTime = (oldestIp, oldestTime)"
| "oldest_scan ((cachedIp, time) # rest) oldestIp oldestTime =
     (if (case oldestTime of None \<Rightarrow> True | Some t \<Rightarrow> time < t)
      then oldest_scan rest (Some cachedIp) (Some time)
      else oldest_scan rest oldestIp oldestTime)"

definition evict_oldest :: "geo_cache \<Rightarrow> geo_cache" where
  "evict_oldest st =
     (if map_size (ipInfoCache st) \<ge> MAX_CACHE_SIZE then
        (case fst (oldest_scan (ipAccessTimes st) None None) of
           None \<Rightarrow> st
         | Some oldestIp \<Rightarrow>
             if oldestIp \<noteq> []
             then st\<lparr>ipInfoCache := map_delete (ipInfoCache st) oldestIp,
                     ipAccessTimes := map_delete (ipAccessTimes st) oldestIp\<rparr>
             else st)
      else st)"

text \<open>
  \<^verbatim>\<open>getIPInfo\<close> is asynchronous: on a miss it runs up to \<^verbatim>\<open>await axios.get\<close>, and resumes
  when the provider has answered; other requests are served in between. The two pieces
  are \<open>lookup_start\<close> (the capacity test, the eviction and the sending of the request) and
  \<open>lookup_finish\<close> (the two \<^verbatim>\<open>set\<close> calls of the \<^verbatim>\<open>try\<close> block or of the \<^verbatim>\<open>catch\<close> block,
  and the returned value); \<open>now\<close> is what \<^verbatim>\<open>Date.now()\<close> returns after the await and \<open>resp\<close>
  the outcome of the external call.
\<close>

definition lookup_start :: "geo_cache \<Rightarrow> string \<Rightarrow> geo_cache" where
  "lookup_start st addr =
     (let st1 = evict_oldest st in st1\<lparr>requested := requested st1 @ [addr]\<rparr>)"

definition lookup_finish :: "geo_cache \<Rightarrow> string \<Rightarrow> int \<Rightarrow> response \<Rightarrow> ipInfo option \<times> geo_cache" where
  "lookup_finish st addr now resp =
     (case resp of
        Data info \<Rightarrow>
          (Some info,
           st\<lparr>ipInfoCache := map_set (ipInfoCache st) addr (Some info),
               ipAccessTimes := map_set (ipAccessTimes st) addr now\<rparr>)
      | Failed \<Rightarrow>
          (None,
           st\<lparr>ipInfoCache := map_set (ipInfoCache st) addr None,
               ipAccessTimes := map_set (ipAccessTimes st) addr now\<rparr>))"

text \<open>
  \<^verbatim>\<open>getIPInfo\<close> with nothing else served during its await: the hit branch, or the two pieces
  of a miss one right after the other.
\<close>

definition getIPInfo :: "geo_cache \<Rightarrow> string \<Rightarrow> int \<Rightarrow> response \<Rightarrow> ipInfo option \<times> geo_cache" where
  "getIPInfo st addr now resp =
     (case map_get (ipInfoCache st) addr of
        Some stored \<Rightarrow> (stored, st\<lparr>ipAccessTimes := map_set (ipAccessTimes st) addr now\<rparr>)
      | None \<Rightarrow> lookup_finish (lookup_start st addr) addr now resp)"

text \<open>
  The logging middleware, as far as the cache goes, for a request that is served with no
  other request in between: it reads the cache itself and calls \<^verbatim>\<open>getIPInfo\<close> only for an
  address the cache does not hold.
\<close>

definition enrich :: "geo_cache \<Rightarrow> request \<Rightarrow> int \<Rightarrow> response \<Rightarrow> ipInfo option \<times> geo_cache" where
  "enrich st req now resp =
     (let addr = getRealIP req in
      case map_get (ipInfoCache st) addr of
        Some stored \<Rightarrow> (stored, st)
      | None \<Rightarrow> getIPInfo st addr now resp)"

text \<open>
  A sequence of requests served strictly one after the other, each with the clock reading
  and the provider's answer it meets.
\<close>

type_synonym event = "request \<times> int \<times> response"

definition serve :: "geo_cache \<Rightarrow> event \<Rightarrow> geo_cache" where
  "serve st ev = (case ev of (req, now, resp) \<Rightarrow> snd (enrich st req now resp))"

definition serve_all :: "geo_cache \<Rightarrow> event list \<Rightarrow> geo_cache" where
  "serve_all st evs = foldl serve st evs"

definition addr_of :: "event \<Rightarrow> string" where
  "addr_of ev = getRealIP (fst ev)"

definition time_of :: "event \<Rightarrow> int" where
  "time_of ev = fst (snd ev)"

text \<open>
  The server with overlapping requests. Node runs the middleware of an arriving request up
  to its first await, so a request from an address that is not cached runs \<open>lookup_start\<close>
  and then waits; the provider's answer for a waiting lookup runs \<open>lookup_finish\<close>. Any
  number of requests may arrive between the two. \<open>waiting\<close> lists the addresses of the
  suspended lookups; an answer for an address that is not waiting does nothing.
\<close>

datatype action = Arrive request | Respond string int response

record server =
  cache :: geo_cache
  waiting :: "string list"

definition idle :: server where
  "idle = \<lparr>cache = empty_cache, waiting = []\<rparr>"

definition act :: "server \<Rightarrow> action \<Rightarrow> server" where
  "act sv a =
     (case a of
        Arrive req \<Rightarrow>
          (let addr = getRealIP req in
           if map_has (ipInfoCache (cache sv)) addr then sv
           else sv\<lparr>cache := lookup_start (cache sv) addr, waiting := waiting sv @ [addr]\<rparr>)
      | Respond addr now resp \<Rightarrow>
          if addr \<in> set (waiting sv)
          then sv\<lparr>cache := snd (lookup_finish (cache sv) addr now resp),
                  waiting := remove1 addr (waiting sv)\<rparr>
          else sv)"

definition run :: "server \<Rightarrow> action list \<Rightarrow> server" where
  "run sv as = foldl act sv as"

text \<open>The actions of requests that do not overlap: each is answered before the next arrives.\<close>

definition one_by_one :: "event list \<Rightarrow> action list" where
  "one_by_one evs =
     concat (map (\<lambda>ev. case ev of (req, now, resp) \<Rightarrow> [Arrive req, Respond (getRealIP req) now resp]) evs)"

text \<open>
  Vocabulary for the statements below, at the level of the header map: a header is
  present when the map holds a value for its name (an empty value included), and it
  contains a substring when it is present and its value does.
\<close>

definition header_present :: "request \<Rightarrow> string \<Rightarrow> bool" where
  "header_present req name = (headers req name \<noteq> None)"

definition header_contains :: "request \<Rightarrow> string \<Rightarrow> string \<Rightarrow> bool" where
  "header_contains req name sub =
     (case headers req name of None \<Rightarrow> False | Some v \<Rightarrow> str_includes v sub)"

definition header_nonempty :: "request \<Rightarrow> string \<Rightarrow> bool" where
  "header_nonempty req name =
     (case headers req name of None \<Rightarrow> False | Some v \<Rightarrow> v \<noteq> [])"

text \<open>
  A path refers to the index or landing page when its last segment is \<^verbatim>\<open>index.html\<close>, or
  is empty as in \<^verbatim>\<open>/\<close>.
\<close>

definition last_segment :: "string \<Rightarrow> string" where
  "last_segment p = rev (takeWhile (\<lambda>c. c \<noteq> CHR ''/'') (rev p))"

definition names_index_page :: "string \<Rightarrow> bool" where
  "names_index_page p = (last_segment p = [] \<or> last_segment p = ''index.html'')"

text \<open>The first truthy value of a list of string-or-undefined values.\<close>

fun first_nonempty :: "string option list \<Rightarrow> string option" where
  "first_nonempty [] = None"
| "first_nonempty (None # vs) = first_nonempty vs"
| "first_nonempty (Some v # vs) = (if v \<noteq> [] then Some v else first_nonempty vs)"

text \<open>
  The request reaches the JavaScript step: it is a download request, the allowlist bypass
  is not taken, and each of the three earlier checks is disabled or passes.
\<close>

definition earlier_checks_pass :: "config \<Rightarrow> request \<Rightarrow> bool" where
  "earlier_checks_pass cfg req =
     ((flag cfg enableUserAgent \<longrightarrow> isValidBrowser (req_get req ''User-Agent'')) \<and>
      (flag cfg enableBrowserFeature \<longrightarrow> checkModernBrowserFeatures req))"

definition reaches_js_step :: "config \<Rightarrow> request \<Rightarrow> bool" where
  "reaches_js_step cfg req =
     (isFileDownload req \<and> \<not> referrer_allowed cfg req \<and> earlier_checks_pass cfg req \<and>
      (flag cfg enableReferrer \<longrightarrow>
         truthy (referrer_of req) \<or> str_includes (path req) ''index.html''))"

text \<open>
  An occurrence of a browser pattern at index \<open>i\<close> of a user-agent string: the token (in
  any letter case), a slash and at least one digit start there; \<open>version_at\<close> is the number
  written by the digits that follow the slash.
\<close>

definition token_at :: "string \<Rightarrow> string \<Rightarrow> nat \<Rightarrow> bool" where
  "token_at token ua i =
     (toLowerCase (take (length token + 1) (drop i ua)) = toLowerCase token @ ''/'' \<and>
      (case drop (i + length token + 1) ua of [] \<Rightarrow> False | c # _ \<Rightarrow> is_digit c))"

definition version_at :: "string \<Rightarrow> string \<Rightarrow> nat \<Rightarrow> nat" where
  "version_at token ua i = parseInt (takeWhile is_digit (drop (i + length token + 1) ua))"

definition matches_blocked :: "string \<Rightarrow> bool" where
  "matches_blocked ua =
     (\<exists>pattern \<in> set blockedUserAgents. str_includes (toLowerCase ua) (toLowerCase pattern))"

text \<open>Cookies of a request: whether one is carried, and the request with one added.\<close>

definition cookie_present :: "request \<Rightarrow> string \<Rightarrow> bool" where
  "cookie_present req name = (case cookies req of None \<Rightarrow> False | Some cs \<Rightarrow> cs name \<noteq> None)"

definition set_cookie :: "request \<Rightarrow> string \<Rightarrow> string \<Rightarrow> request" where
  "set_cookie req name v =
     req\<lparr>cookies := Some ((case cookies req of None \<Rightarrow> Map.empty | Some cs \<Rightarrow> cs)(name \<mapsto> v))\<rparr>"

text \<open>The names of the headers that \<^verbatim>\<open>checkModernBrowserFeatures\<close> reads.\<close>

definition scored_headers :: "string list" where
  "scored_headers = [''accept'', ''accept-language'', ''accept-encoding'', ''sec-fetch-dest'',
     ''sec-fetch-mode'', ''sec-fetch-site'', ''sec-ch-ua'', ''connection'',
     ''upgrade-insecure-requests'', ''cache-control'']"

text \<open>
  The invariant of the two maps: keys are unique in each, the two key sets agree, the empty
  string is no key, and the size stays within the bound.
\<close>

definition cache_inv :: "geo_cache \<Rightarrow> bool" where
  "cache_inv st =
     (distinct (map_keys (ipInfoCache st)) \<and> distinct (map_keys (ipAccessTimes st)) \<and>
      set (map_keys (ipInfoCache st)) = set (map_keys (ipAccessTimes st)) \<and>
      [] \<notin> set (map_keys (ipInfoCache st)) \<and>
      map_size (ipInfoCache st) \<le> MAX_CACHE_SIZE)"

text \<open>An address whose recorded access time is the smallest of all recorded times.\<close>

definition oldest_in :: "(string \<times> int) list \<Rightarrow> string \<Rightarrow> bool" where
  "oldest_in accessTimes victim =
     (case map_get accessTimes victim of
        None \<Rightarrow> False
      | Some t \<Rightarrow> list_all (\<lambda>(k', t'). t \<le> t') accessTimes)"

text \<open>The value a miss stores for an event: the provider's answer, or the absent marker.\<close>

definition stored_of :: "event \<Rightarrow> ipInfo option" where
  "stored_of ev = (case snd (snd ev) of Failed \<Rightarrow> None | Data info \<Rightarrow> Some info)"

section \<open>Example configurations and requests\<close>

definition mk_request :: "string \<Rightarrow> (string \<times> string) list \<Rightarrow> (string \<times> string) list \<Rightarrow> request" where
  "mk_request p hs cs =
     \<lparr>path = p, headers = map_of hs, cookies = Some (map_of cs), ip = None, remoteAddress = None\<rparr>"

definition dc_strict :: downloadCheck_config where
  "dc_strict = \<lparr>enableReferrer = True, enableUserAgent = True, enableBrowserFeature = True,
     enableJsCheck = True, allowedRefDomains = Some [''trusted.example'']\<rparr>"

definition cfg_strict :: config where
  "cfg_strict = \<lparr>downloadCheck = Some dc_strict\<rparr>"

definition cfg_absent :: config where
  "cfg_absent = \<lparr>downloadCheck = None\<rparr>"

definition cfg_features_only :: config where
  "cfg_features_only = \<lparr>downloadCheck = Some \<lparr>enableReferrer = False, enableUserAgent = False,
     enableBrowserFeature = True, enableJsCheck = False, allowedRefDomains = None\<rparr>\<rparr>"

definition cfg_user_agent_only :: config where
  "cfg_user_agent_only = \<lparr>downloadCheck = Some \<lparr>enableReferrer = False, enableUserAgent = True,
     enableBrowserFeature = False, enableJsCheck = False, allowedRefDomains = None\<rparr>\<rparr>"

definition cfg_referrer_only :: config where
  "cfg_referrer_only = \<lparr>downloadCheck = Some \<lparr>enableReferrer = True, enableUserAgent = False,
     enableBrowserFeature = False, enableJsCheck = False,
     allowedRefDomains = Some [''trusted.example'']\<rparr>\<rparr>"

definition browser_headers :: "(string \<times> string) list" where
  "browser_headers =
     [(''user-agent'', ''Mozilla/5.0 Chrome/120.0 Safari/537.36''),
      (''accept'', ''text/html,image/webp,*/*''),
      (''accept-language'', ''en''),
      (''accept-encoding'', ''gzip, deflate''),
      (''cache-control'', ''no-cache''),
      (''referer'', ''https://files.example/list'')]"

definition request_page :: request where
  "request_page = mk_request ''/docs/readme'' [(''user-agent'', ''curl/8.0''), (''accept'', ''*/*'')] []"

definition request_trusted_curl :: request where
  "request_trusted_curl = mk_request ''/a.zip''
     [(''user-agent'', ''curl/8.0''), (''referer'', ''https://trusted.example/page'')] []"

definition request_two_referrers :: request where
  "request_two_referrers = mk_request ''/a.zip''
     [(''referrer'', ''x''), (''referer'', ''https://trusted.example/page'')] []"

definition request_curl :: request where
  "request_curl = mk_request ''/a.zip'' [(''user-agent'', ''curl/8.0''), (''accept'', ''*/*'')] []"

definition request_chrome :: request where
  "request_chrome = mk_request ''/a.zip'' [(''user-agent'', ''Mozilla/5.0 Chrome/80'')] []"

definition request_two_versions :: request where
  "request_two_versions =
     mk_request ''/a.zip'' [(''user-agent'', ''Mozilla/5.0 Chrome/50 Chrome/80'')] []"

definition request_empty_language :: request where
  "request_empty_language = mk_request ''/a.zip''
     [(''accept'', ''text/html,image/webp''), (''accept-language'', ''''),
      (''accept-encoding'', ''gzip, deflate''), (''cache-control'', ''no-cache'')] []"

definition request_five_signals :: request where
  "request_five_signals = mk_request ''/a.zip''
     [(''accept'', ''text/html,image/webp''), (''accept-language'', ''en''),
      (''accept-encoding'', ''gzip, deflate''), (''cache-control'', ''no-cache'')] []"

definition request_direct :: request where
  "request_direct = mk_request ''/a.zip'' (butlast browser_headers) []"

definition request_browser :: request where
  "request_browser = mk_request ''/a.zip'' browser_headers []"

definition request_index_zip :: request where
  "request_index_zip = mk_request ''/index.html.zip'' (butlast browser_headers) []"

text \<open>
  Requests that differ in the peer address only, and a run of 101 of them from distinct
  addresses at increasing times.
\<close>

definition peer :: "string \<Rightarrow> request" where
  "peer a = \<lparr>path = ''/'', headers = Map.empty, cookies = None, ip = Some a, remoteAddress = None\<rparr>"

definition hex_digits :: string where
  "hex_digits = ''0123456789abcdef''"

definition example_addr :: "nat \<Rightarrow> string" where
  "example_addr n = ''fd00::'' @ [hex_digits ! (n div 16), hex_digits ! (n mod 16)]"

definition example_event :: "nat \<Rightarrow> event" where
  "example_event n = (peer (example_addr n), int n, Failed)"

definition example_events :: "event list" where
  "example_events = map example_event [0..<101]"

text \<open>The cache after one request from 203.0.113.7 at time 1000 whose lookup failed.\<close>

definition cache_after_failure :: geo_cache where
  "cache_after_failure = serve empty_cache (peer ''203.0.113.7'', 1000, Failed)"

text \<open>
  Ninety-nine requests from distinct addresses, each answered before the next arrives, and
  then two requests from two further addresses that both arrive before either is answered.
\<close>

definition overlapping_misses :: "action list" where
  "overlapping_misses =
     one_by_one (map example_event [0..<99]) @
     [Arrive (peer (example_addr 99)), Arrive (peer (example_addr 100)),
      Respond (example_addr 99) 99 Failed, Respond (example_addr 100) 100 Failed]"

section \<open>Auxiliary lemmas\<close>

lemma truthy_js_or: "truthy (js_or a b) = (truthy a \<or> truthy b)"
  by (simp add: js_or_def)

lemma str_includes_Nil_iff: "str_includes [] sub = (sub = [])"
  by simp

lemma header_or_empty_includes:
  "sub \<noteq> [] \<Longrightarrow> str_includes (header_or_empty req name) sub = header_contains req name sub"
  by (auto simp: header_or_empty_def header_contains_def js_or_def split: option.splits)

lemma isFileDownload_iff:
  "isFileDownload req =
     (toLowerCase (extname (path req)) \<in> set fileExts \<or>
      header_contains req ''accept'' ''application/octet-stream'' \<or>
      header_contains req ''accept'' ''attachment'' \<or>
      header_contains req ''content-disposition'' ''attachment'')"
  by (simp add: isFileDownload_def Let_def header_or_empty_includes)

lemma lower_names:
  "toLowerCase ''Referrer'' = ''referrer''"
  "toLowerCase ''Referer'' = ''referer''"
  "toLowerCase ''User-Agent'' = ''user-agent''"
  by code_simp+

lemma referrer_of_eq:
  "referrer_of req = js_or (headers req ''referrer'') (headers req ''referer'')"
  by (simp add: referrer_of_def req_get_def lower_names js_or_def)

lemma user_agent_eq: "req_get req ''User-Agent'' = headers req ''user-agent''"
  by (simp add: req_get_def lower_names)

lemma first_nonempty_two:
  "first_nonempty [a, b] = (if truthy a then a else if truthy b then b else None)"
  by (cases a; cases b; simp)

lemma referrer_first_nonempty:
  "first_nonempty [headers req ''referrer'', headers req ''referer''] = Some r
   \<Longrightarrow> referrer_of req = Some r \<and> r \<noteq> []"
  by (auto simp: referrer_of_eq js_or_def first_nonempty_two split: if_splits)

lemma no_referrer_no_bypass:
  "\<not> truthy (referrer_of req) \<Longrightarrow> \<not> referrer_allowed cfg req"
  by (auto simp: referrer_allowed_def split: option.splits)

lemma validate_unfold:
  "isFileDownload req \<Longrightarrow> \<not> referrer_allowed cfg req \<Longrightarrow>
   validateDownloadRequest cfg req =
     (if flag cfg enableUserAgent \<and> \<not> isValidBrowser (req_get req ''User-Agent'')
        then Deny UserAgentReason
      else if flag cfg enableBrowserFeature \<and> \<not> checkModernBrowserFeatures req
        then Deny BrowserFeatureReason
      else if flag cfg enableReferrer \<and> \<not> truthy (referrer_of req)
              \<and> \<not> str_includes (path req) ''index.html''
        then Deny ReferrerReason
      else if flag cfg enableJsCheck \<and> \<not> hasJsCheck req then Challenge
      else Allow)"
  by (simp add: validateDownloadRequest_def Let_def)

lemma prefix_take_iff: "prefix xs ys = (take (length xs) ys = xs)"
  by (metis append_eq_conv_conj prefix_def append_take_drop_id)

lemma lower_char_digit: "is_digit (lower_char c) = is_digit c"
  by (auto simp: is_digit_def lower_char_def Let_def)

lemma lower_char_id: "is_digit c \<Longrightarrow> lower_char c = c"
  by (auto simp: is_digit_def lower_char_def Let_def)

lemma takeWhile_digit_lower:
  "takeWhile is_digit (toLowerCase s) = takeWhile is_digit s"
  by (induction s) (auto simp: toLowerCase_def lower_char_digit lower_char_id)

lemma toLowerCase_simps:
  "toLowerCase [] = []" "toLowerCase (c # cs) = lower_char c # toLowerCase cs"
  "toLowerCase (drop n s) = drop n (toLowerCase s)"
  "toLowerCase (take n s) = take n (toLowerCase s)"
  "length (toLowerCase s) = length s"
  by (simp_all add: toLowerCase_def drop_map take_map)

lemma match_here_eq:
  "match_here (toLowerCase token @ ''/'') (toLowerCase s) =
     (if token_at token s 0 then Some (takeWhile is_digit (drop (length token + 1) s)) else None)"
proof -
  have d: "takeWhile is_digit (drop (Suc (length token)) (toLowerCase s))
           = takeWhile is_digit (drop (Suc (length token)) s)"
    using takeWhile_digit_lower[of "drop (Suc (length token)) s"]
    by (simp add: toLowerCase_simps)
  show ?thesis
    by (auto simp: match_here_def token_at_def Let_def prefix_take_iff toLowerCase_simps d
        takeWhile_eq_Nil_iff split: list.splits)
qed

lemma token_at_Nil: "\<not> token_at token [] i"
  by (simp add: token_at_def)

lemma token_at_Cons_Suc: "token_at token (c # cs) (Suc k) = token_at token cs k"
  by (simp add: token_at_def)

lemma match_first_leftmost:
  "token_at token ua i \<Longrightarrow> \<forall>j<i. \<not> token_at token ua j \<Longrightarrow>
   match_first (toLowerCase token @ ''/'') (toLowerCase ua)
     = Some (takeWhile is_digit (drop (i + length token + 1) ua))"
proof (induction ua arbitrary: i)
  case Nil
  then show ?case by (simp add: token_at_Nil)
next
  case (Cons c cs)
  show ?case
  proof (cases i)
    case 0
    with Cons.prems have "token_at token (c # cs) 0" by simp
    then have "match_here (toLowerCase token @ ''/'') (toLowerCase (c # cs))
               = Some (takeWhile is_digit (drop (length token + 1) (c # cs)))"
      by (simp only: match_here_eq if_True)
    with 0 show ?thesis by (simp add: toLowerCase_simps)
  next
    case (Suc k)
    with Cons.prems have no0: "\<not> token_at token (c # cs) 0" by blast
    then have none: "match_here (toLowerCase token @ ''/'') (toLowerCase (c # cs)) = None"
      by (simp only: match_here_eq if_False)
    from Suc Cons.prems have here: "token_at token cs k"
      by (simp add: token_at_Cons_Suc)
    have before: "\<forall>j<k. \<not> token_at token cs j"
    proof (intro allI impI)
      fix j assume "j < k"
      then have "Suc j < i" using Suc by simp
      with Cons.prems(2) have "\<not> token_at token (c # cs) (Suc j)" by blast
      then show "\<not> token_at token cs j" by (simp add: token_at_Cons_Suc)
    qed
    from Cons.IH[OF here before] none Suc show ?thesis
      by (simp add: toLowerCase_simps)
  qed
qed

lemma str_match_first:
  "token_at token ua i \<Longrightarrow> \<forall>j<i. \<not> token_at token ua j \<Longrightarrow>
   str_match token ua = Some (takeWhile is_digit (drop (i + length token + 1) ua))"
  by (simp add: str_match_def match_first_leftmost)

lemma blocked_iff:
  "list_ex (\<lambda>pattern. regex_test_i pattern ua) blockedUserAgents = matches_blocked ua"
  by (simp add: list_ex_iff regex_test_i_def matches_blocked_def)

lemma isValidBrowser_blocked: "matches_blocked ua \<Longrightarrow> \<not> isValidBrowser (Some ua)"
  by (simp add: isValidBrowser_def blocked_iff)

lemma isValidBrowser_absent: "\<not> isValidBrowser None" "\<not> isValidBrowser (Some [])"
  by (simp_all add: isValidBrowser_def)

lemma isValidBrowser_first:
  assumes "\<not> matches_blocked ua" and "token \<in> set modernBrowsers"
    and "token_at token ua i" and "\<forall>j<i. \<not> token_at token ua j"
    and "70 \<le> version_at token ua i"
  shows "isValidBrowser (Some ua)"
proof -
  have ne: "ua \<noteq> []" using assms(3) token_at_Nil by blast
  have m: "str_match token ua = Some (takeWhile is_digit (drop (i + length token + 1) ua))"
    using assms(3,4) by (rule str_match_first)
  have nb: "\<not> list_ex (\<lambda>pattern. regex_test_i pattern ua) blockedUserAgents"
    using assms(1) by (simp add: blocked_iff)
  have "case str_match token ua of None \<Rightarrow> False | Some ds \<Rightarrow> 70 \<le> parseInt ds"
    using m assms(5) by (simp add: version_at_def)
  with assms(2)
  have ex: "list_ex (\<lambda>pattern. case str_match pattern ua of None \<Rightarrow> False
                                  | Some ds \<Rightarrow> 70 \<le> parseInt ds) modernBrowsers"
    unfolding list_ex_iff by blast
  show ?thesis
    using ne nb ex by (simp add: isValidBrowser_def)
qed

lemma validate_deny_ua:
  "isFileDownload req \<Longrightarrow> \<not> referrer_allowed cfg req \<Longrightarrow> flag cfg enableUserAgent \<Longrightarrow>
   \<not> isValidBrowser (headers req ''user-agent'') \<Longrightarrow>
   validateDownloadRequest cfg req = Deny UserAgentReason"
  by (simp add: validate_unfold user_agent_eq)

lemma validate_not_deny_ua:
  "isValidBrowser (headers req ''user-agent'') \<Longrightarrow>
   validateDownloadRequest cfg req \<noteq> Deny UserAgentReason"
  by (simp add: validateDownloadRequest_def user_agent_eq Let_def)

lemma header_has_eq: "sub \<noteq> [] \<Longrightarrow> header_has req name sub = header_contains req name sub"
  by (auto simp: header_has_def header_contains_def split: option.splits)

lemma truthy_header: "truthy (headers req name) = header_nonempty req name"
  by (simp add: header_nonempty_def split: option.splits)

lemma header_contains_nonempty:
  "sub \<noteq> [] \<Longrightarrow> header_contains req name sub \<Longrightarrow> header_nonempty req name"
  by (auto simp: header_contains_def header_nonempty_def split: option.splits)

lemma featureScore_only_accept:
  assumes "headers req ''accept'' = Some ''*/*''"
    and "\<forall>name \<in> set scored_headers. name \<noteq> ''accept'' \<longrightarrow> \<not> header_present req name"
  shows "featureScore req = 0"
proof -
  have a: "\<not> header_has req ''accept'' ''text/html''" "\<not> header_has req ''accept'' ''image/webp''"
    using assms(1) by (simp_all add: header_has_def) 
  have n: "headers req ''accept-language'' = None" "headers req ''accept-encoding'' = None"
    "headers req ''sec-fetch-dest'' = None" "headers req ''sec-fetch-mode'' = None"
    "headers req ''sec-fetch-site'' = None" "headers req ''sec-ch-ua'' = None"
    "headers req ''connection'' = None" "headers req ''upgrade-insecure-requests'' = None"
    "headers req ''cache-control'' = None"
    using assms(2) by (simp_all add: scored_headers_def header_present_def)
  show ?thesis
    using a by (simp add: featureScore_def n b2n_def)
qed

lemma featureScore_five:
  assumes "header_contains req ''accept'' ''text/html''"
    and "header_contains req ''accept'' ''image/webp''"
    and "header_nonempty req ''accept-language''"
    and "header_contains req ''accept-encoding'' ''gzip''"
    and "header_contains req ''accept-encoding'' ''deflate''"
    and "header_nonempty req ''cache-control''"
  shows "5 \<le> featureScore req"
proof -
  have "header_nonempty req ''accept-encoding''"
    using assms(4) by (rule header_contains_nonempty[rotated]) simp
  then show ?thesis
    using assms by (simp add: featureScore_def header_has_eq truthy_header b2n_def)
qed

lemma set_cookie_frame:
  "path (set_cookie req name v) = path req"
  "headers (set_cookie req name v) = headers req"
  by (simp_all add: set_cookie_def)

lemma set_cookie_unseen:
  "isFileDownload (set_cookie req name v) = isFileDownload req"
  "referrer_of (set_cookie req name v) = referrer_of req"
  "req_get (set_cookie req name v) h = req_get req h"
  "checkModernBrowserFeatures (set_cookie req name v) = checkModernBrowserFeatures req"
  by (simp_all add: isFileDownload_def header_or_empty_def referrer_of_def req_get_def
      checkModernBrowserFeatures_def featureScore_def header_has_def set_cookie_frame Let_def)

lemma referrer_allowed_set_cookie:
  "referrer_allowed cfg (set_cookie req name v) = referrer_allowed cfg req"
  by (simp add: referrer_allowed_def set_cookie_unseen cong: option.case_cong)

lemma reaches_js_step_set_cookie:
  "reaches_js_step cfg (set_cookie req name v) = reaches_js_step cfg req"
  by (simp add: reaches_js_step_def earlier_checks_pass_def set_cookie_unseen
      referrer_allowed_set_cookie set_cookie_frame)

lemma validate_js_step:
  "reaches_js_step cfg req \<Longrightarrow>
   validateDownloadRequest cfg req =
     (if flag cfg enableJsCheck \<and> \<not> hasJsCheck req then Challenge else Allow)"
  by (auto simp: reaches_js_step_def earlier_checks_pass_def validate_unfold)

lemma hasJsCheck_absent: "\<not> cookie_present req ''jsEnabled'' \<Longrightarrow> \<not> hasJsCheck req"
  by (auto simp: cookie_present_def hasJsCheck_def split: option.splits)

lemma hasJsCheck_set: "v \<noteq> [] \<Longrightarrow> hasJsCheck (set_cookie req ''jsEnabled'' v)"
  by (simp add: hasJsCheck_def set_cookie_def)

lemma unknownIP_nonempty: "unknownIP \<noteq> []"
  by (simp add: unknownIP_def)

lemma or_placeholder_nonempty:
  "u \<noteq> [] \<Longrightarrow> (case js_or x (Some u) of None \<Rightarrow> u | Some a \<Rightarrow> a) \<noteq> []"
  by (cases x) (simp_all add: js_or_def)

lemma getRealIP_nonempty: "getRealIP req \<noteq> []"
  unfolding getRealIP_def Let_def
  by (rule or_placeholder_nonempty) (rule unknownIP_nonempty)

lemma map_keys_simps:
  "map_keys [] = []" "map_keys ((k, v) # m) = k # map_keys m"
  "map_keys (m @ m') = map_keys m @ map_keys m'"
  by (simp_all add: map_keys_def)

lemma map_keys_map_set:
  "map_keys (map_set m k v) = (if k \<in> set (map_keys m) then map_keys m else map_keys m @ [k])"
proof (induction m)
  case Nil
  then show ?case by (simp add: map_keys_simps)
next
  case (Cons p m)
  obtain k' v' where p: "p = (k', v')" by (cases p)
  with Cons show ?case by (simp add: map_keys_simps)
qed

lemma keys_map_set: "set (map_keys (map_set m k v)) = insert k (set (map_keys m))"
  by (auto simp: map_keys_map_set)

lemma map_set_new: "k \<notin> set (map_keys m) \<Longrightarrow> map_set m k v = m @ [(k, v)]"
proof (induction m)
  case Nil
  then show ?case by simp
next
  case (Cons p m)
  obtain k' v' where p: "p = (k', v')" by (cases p)
  with Cons show ?case by (auto simp: map_keys_simps)
qed

lemma distinct_map_set: "distinct (map_keys m) \<Longrightarrow> distinct (map_keys (map_set m k v))"
  by (simp add: map_keys_map_set)

lemma length_map_set:
  "length (map_set m k v) = (if k \<in> set (map_keys m) then length m else Suc (length m))"
proof -
  have "length (map_set m k v) = length (map_keys (map_set m k v))"
    by (simp add: map_keys_def)
  also have "\<dots> = (if k \<in> set (map_keys m) then length m else Suc (length m))"
    by (simp add: map_keys_map_set) (simp add: map_keys_def)
  finally show ?thesis .
qed

lemma keys_map_delete: "map_keys (map_delete m k) = filter (\<lambda>k'. k' \<noteq> k) (map_keys m)"
proof (induction m)
  case Nil
  then show ?case by (simp add: map_keys_def map_delete_def)
next
  case (Cons p m)
  obtain k' v' where p: "p = (k', v')" by (cases p)
  with Cons show ?case by (simp add: map_keys_def map_delete_def)
qed

lemma set_keys_map_delete: "set (map_keys (map_delete m k)) = set (map_keys m) - {k}"
  by (auto simp: keys_map_delete)

lemma distinct_map_delete: "distinct (map_keys m) \<Longrightarrow> distinct (map_keys (map_delete m k))"
  by (simp add: keys_map_delete)

lemma length_filter_distinct:
  "distinct xs \<Longrightarrow> k \<in> set xs \<Longrightarrow> Suc (length (filter (\<lambda>k'. k' \<noteq> k) xs)) = length xs"
proof (induction xs)
  case Nil
  then show ?case by simp
next
  case (Cons x xs)
  show ?case
  proof (cases "x = k")
    case True
    with Cons.prems have "k \<notin> set xs" by simp
    then have "filter (\<lambda>k'. k' \<noteq> k) xs = xs"
      by (simp add: filter_id_conv) blast
    with True show ?thesis by simp
  next
    case False
    with Cons show ?thesis by simp
  qed
qed

lemma length_map_delete:
  "distinct (map_keys m) \<Longrightarrow> k \<in> set (map_keys m) \<Longrightarrow> Suc (length (map_delete m k)) = length m"
  using length_filter_distinct[of "map_keys m" k] keys_map_delete[of m k]
  by (metis length_map map_keys_def)

lemma map_delete_head:
  "k \<notin> set (map_keys m) \<Longrightarrow> map_delete ((k, v) # m) k = m"
  by (force simp: map_delete_def map_keys_def filter_id_conv)

lemma map_get_map_set: "map_get (map_set m k v) k = Some v"
proof (induction m)
  case Nil
  then show ?case by (simp add: map_get_def)
next
  case (Cons p m)
  obtain k' v' where p: "p = (k', v')" by (cases p)
  with Cons show ?case by (simp add: map_get_def)
qed

lemma map_get_None: "(map_get m k = None) = (k \<notin> set (map_keys m))"
  by (simp add: map_get_def map_keys_def map_of_eq_None_iff)

lemma length_keys: "length (map_keys m) = length m"
  by (simp add: map_keys_def)

lemma oldest_scan_from:
  "\<exists>k t. oldest_scan m (Some k0) (Some t0) = (Some k, Some t) \<and> t \<le> t0 \<and>
         (\<forall>(k', t') \<in> set m. t \<le> t') \<and> ((k, t) = (k0, t0) \<or> (k, t) \<in> set m)"
proof (induction m arbitrary: k0 t0)
  case Nil
  then show ?case by simp
next
  case (Cons p m)
  obtain k1 t1 where p: "p = (k1, t1)" by (cases p)
  show ?case
  proof (cases "t1 < t0")
    case True
    from Cons[of k1 t1] obtain k t where
      "oldest_scan m (Some k1) (Some t1) = (Some k, Some t)" "t \<le> t1"
      "\<forall>(k', t') \<in> set m. t \<le> t'" "(k, t) = (k1, t1) \<or> (k, t) \<in> set m"
      by blast
    with True p show ?thesis by auto
  next
    case False
    from Cons[of k0 t0] obtain k t where
      "oldest_scan m (Some k0) (Some t0) = (Some k, Some t)" "t \<le> t0"
      "\<forall>(k', t') \<in> set m. t \<le> t'" "(k, t) = (k0, t0) \<or> (k, t) \<in> set m"
      by blast
    with False p show ?thesis by auto
  qed
qed

lemma oldest_scan_min:
  assumes "m \<noteq> []"
  shows "\<exists>k t. oldest_scan m None None = (Some k, Some t) \<and> (k, t) \<in> set m \<and>
         (\<forall>(k', t') \<in> set m. t \<le> t')"
proof -
  from assms obtain k0 t0 rest where m: "m = (k0, t0) # rest"
    by (cases m) auto
  from oldest_scan_from[of rest k0 t0] obtain k t where
    "oldest_scan rest (Some k0) (Some t0) = (Some k, Some t)" "t \<le> t0"
    "\<forall>(k', t') \<in> set rest. t \<le> t'" "(k, t) = (k0, t0) \<or> (k, t) \<in> set rest"
    by blast
  with m show ?thesis by auto
qed

lemma oldest_scan_keeps:
  "\<forall>(k', t') \<in> set m. t0 \<le> t' \<Longrightarrow> oldest_scan m (Some k0) (Some t0) = (Some k0, Some t0)"
  by (induction m) auto

lemma same_length:
  assumes "distinct (map_keys a)" "distinct (map_keys b)" "set (map_keys a) = set (map_keys b)"
  shows "length a = length b"
proof -
  have "length (map_keys a) = length (map_keys b)"
    using assms by (metis distinct_card)
  then show ?thesis by (simp add: map_keys_def)
qed

lemma MAX_pos: "0 < MAX_CACHE_SIZE"
  by (simp add: MAX_CACHE_SIZE_def)

lemma map_get_member:
  "distinct (map_keys m) \<Longrightarrow> (k, v) \<in> set m \<Longrightarrow> map_get m k = Some v"
  by (simp add: map_get_def map_keys_def)

lemma evict_below: "map_size (ipInfoCache st) < MAX_CACHE_SIZE \<Longrightarrow> evict_oldest st = st"
  by (simp add: evict_oldest_def)

lemma evict_full:
  assumes inv: "cache_inv st" and full: "MAX_CACHE_SIZE \<le> map_size (ipInfoCache st)"
  shows "\<exists>victim. oldest_in (ipAccessTimes st) victim \<and>
           victim \<in> set (map_keys (ipInfoCache st)) \<and>
           evict_oldest st = st\<lparr>ipInfoCache := map_delete (ipInfoCache st) victim,
                                ipAccessTimes := map_delete (ipAccessTimes st) victim\<rparr>"
proof -
  have len: "length (ipAccessTimes st) = length (ipInfoCache st)"
    using inv by (simp add: cache_inv_def same_length)
  with full MAX_pos have ne: "ipAccessTimes st \<noteq> []"
    by (auto simp: map_size_def)
  from oldest_scan_min[OF ne] obtain k t where
    scan: "oldest_scan (ipAccessTimes st) None None = (Some k, Some t)"
    and mem: "(k, t) \<in> set (ipAccessTimes st)"
    and least: "\<forall>(k', t') \<in> set (ipAccessTimes st). t \<le> t'"
    by blast
  from mem have kin: "k \<in> set (map_keys (ipAccessTimes st))"
    by (force simp: map_keys_def)
  with inv have kin': "k \<in> set (map_keys (ipInfoCache st))" and kne: "k \<noteq> []"
    by (auto simp: cache_inv_def)
  have "map_get (ipAccessTimes st) k = Some t"
    using inv mem by (simp add: cache_inv_def map_get_member)
  with least have old: "oldest_in (ipAccessTimes st) k"
    by (simp add: oldest_in_def list_all_iff)
  have "evict_oldest st = st\<lparr>ipInfoCache := map_delete (ipInfoCache st) k,
                                ipAccessTimes := map_delete (ipAccessTimes st) k\<rparr>"
    using full scan kne by (simp add: evict_oldest_def)
  with old kin' show ?thesis by blast
qed

lemma evict_inv:
  assumes inv: "cache_inv st"
  shows "cache_inv (evict_oldest st) \<and> map_size (ipInfoCache (evict_oldest st)) < MAX_CACHE_SIZE
         \<or> evict_oldest st = st \<and> map_size (ipInfoCache st) < MAX_CACHE_SIZE"
proof (cases "MAX_CACHE_SIZE \<le> map_size (ipInfoCache st)")
  case True
  from evict_full[OF inv True] obtain victim where
    v: "victim \<in> set (map_keys (ipInfoCache st))"
    and e: "evict_oldest st = st\<lparr>ipInfoCache := map_delete (ipInfoCache st) victim,
                                ipAccessTimes := map_delete (ipAccessTimes st) victim\<rparr>"
    by blast
  have "Suc (length (map_delete (ipInfoCache st) victim)) = length (ipInfoCache st)"
    using inv v by (simp add: cache_inv_def length_map_delete)
  with inv have small: "length (map_delete (ipInfoCache st) victim) < MAX_CACHE_SIZE"
    by (simp add: cache_inv_def map_size_def)
  have "cache_inv (evict_oldest st)"
    using inv small
    by (auto simp: e cache_inv_def distinct_map_delete set_keys_map_delete map_size_def)
  with small e show ?thesis by (simp add: map_size_def)
next
  case False
  then show ?thesis by (simp add: evict_below)
qed

lemma evict_small:
  "cache_inv st \<Longrightarrow>
   cache_inv (evict_oldest st) \<and> map_size (ipInfoCache (evict_oldest st)) < MAX_CACHE_SIZE"
  using evict_inv[of st] by auto

lemma insert_inv:
  assumes inv: "cache_inv st" and small: "map_size (ipInfoCache st) < MAX_CACHE_SIZE"
    and ne: "addr \<noteq> []"
  shows "cache_inv (st\<lparr>requested := r,
                        ipInfoCache := map_set (ipInfoCache st) addr v,
                        ipAccessTimes := map_set (ipAccessTimes st) addr now\<rparr>)"
  using assms
  by (auto simp: cache_inv_def distinct_map_set keys_map_set length_map_set map_size_def)

lemma getIPInfo_miss:
  "map_get (ipInfoCache st) addr = None \<Longrightarrow>
   snd (getIPInfo st addr now resp) =
     (evict_oldest st)\<lparr>requested := requested (evict_oldest st) @ [addr],
        ipInfoCache := map_set (ipInfoCache (evict_oldest st)) addr
                         (case resp of Failed \<Rightarrow> None | Data info \<Rightarrow> Some info),
        ipAccessTimes := map_set (ipAccessTimes (evict_oldest st)) addr now\<rparr>"
  by (simp add: getIPInfo_def lookup_start_def lookup_finish_def Let_def split: response.splits)

lemma getIPInfo_hit:
  "map_get (ipInfoCache st) addr = Some stored \<Longrightarrow>
   getIPInfo st addr now resp
     = (stored, st\<lparr>ipAccessTimes := map_set (ipAccessTimes st) addr now\<rparr>)"
  by (simp add: getIPInfo_def)

lemma getIPInfo_inv:
  assumes inv: "cache_inv st" and ne: "addr \<noteq> []"
  shows "cache_inv (snd (getIPInfo st addr now resp))"
proof (cases "map_get (ipInfoCache st) addr")
  case None
  from evict_small[OF inv] insert_inv[of "evict_oldest st" addr] ne
  show ?thesis by (simp add: getIPInfo_miss[OF None])
next
  case (Some stored)
  then have "addr \<in> set (map_keys (ipInfoCache st))"
    using map_get_None[of "ipInfoCache st" addr] by simp
  with inv show ?thesis
    by (auto simp: getIPInfo_hit[OF Some] cache_inv_def distinct_map_set keys_map_set)
qed

lemma enrich_hit:
  "map_get (ipInfoCache st) (getRealIP req) = Some stored \<Longrightarrow> enrich st req now resp = (stored, st)"
  by (simp add: enrich_def)

lemma enrich_miss:
  "map_get (ipInfoCache st) (getRealIP req) = None \<Longrightarrow>
   enrich st req now resp = getIPInfo st (getRealIP req) now resp"
  by (simp add: enrich_def)

lemma enrich_inv: "cache_inv st \<Longrightarrow> cache_inv (snd (enrich st req now resp))"
proof (cases "map_get (ipInfoCache st) (getRealIP req)")
  case None
  assume "cache_inv st"
  then show ?thesis
    by (simp add: enrich_miss[OF None] getIPInfo_inv getRealIP_nonempty)
next
  case (Some stored)
  assume "cache_inv st"
  then show ?thesis by (simp add: enrich_hit[OF Some])
qed

lemma serve_inv: "cache_inv st \<Longrightarrow> cache_inv (serve st ev)"
  by (cases ev) (simp add: serve_def enrich_inv)

lemma serve_all_snoc: "serve_all st (evs @ [ev]) = serve (serve_all st evs) ev"
  by (simp add: serve_all_def)

lemma serve_all_inv: "cache_inv st \<Longrightarrow> cache_inv (serve_all st evs)"
  by (induction evs rule: rev_induct) (simp_all add: serve_all_def serve_inv)

lemma empty_inv: "cache_inv empty_cache"
  by (simp add: cache_inv_def empty_cache_def map_keys_def map_size_def)

lemma reachable_inv: "cache_inv (serve_all empty_cache evs)"
  by (rule serve_all_inv) (rule empty_inv)

lemma serve_miss:
  assumes "map_get (ipInfoCache st) (addr_of ev) = None"
  shows "serve st ev =
     (evict_oldest st)\<lparr>requested := requested (evict_oldest st) @ [addr_of ev],
        ipInfoCache := map_set (ipInfoCache (evict_oldest st)) (addr_of ev) (stored_of ev),
        ipAccessTimes := map_set (ipAccessTimes (evict_oldest st)) (addr_of ev) (time_of ev)\<rparr>"
proof -
  obtain req now resp where ev: "ev = (req, now, resp)" by (cases ev)
  with assms have m: "map_get (ipInfoCache st) (getRealIP req) = None"
    by (simp add: addr_of_def)
  show ?thesis
    by (simp add: ev serve_def enrich_miss[OF m] getIPInfo_miss[OF m] addr_of_def time_of_def
        stored_of_def)
qed

lemma serve_hit:
  assumes "map_get (ipInfoCache st) (addr_of ev) = Some stored"
  shows "serve st ev = st"
proof -
  obtain req now resp where ev: "ev = (req, now, resp)" by (cases ev)
  with assms have m: "map_get (ipInfoCache st) (getRealIP req) = Some stored"
    by (simp add: addr_of_def)
  show ?thesis by (simp add: ev serve_def enrich_hit[OF m])
qed

lemma fill:
  "distinct (map addr_of evs) \<Longrightarrow> length evs \<le> MAX_CACHE_SIZE \<Longrightarrow>
   ipInfoCache (serve_all empty_cache evs) = map (\<lambda>ev. (addr_of ev, stored_of ev)) evs \<and>
   ipAccessTimes (serve_all empty_cache evs) = map (\<lambda>ev. (addr_of ev, time_of ev)) evs"
proof (induction evs rule: rev_induct)
  case Nil
  then show ?case by (simp add: serve_all_def empty_cache_def)
next
  case (snoc ev evs)
  let ?st = "serve_all empty_cache evs"
  from snoc have ih:
    "ipInfoCache ?st = map (\<lambda>ev. (addr_of ev, stored_of ev)) evs"
    "ipAccessTimes ?st = map (\<lambda>ev. (addr_of ev, time_of ev)) evs"
    by simp_all
  have k1: "map_keys (ipInfoCache ?st) = map addr_of evs"
    and k2: "map_keys (ipAccessTimes ?st) = map addr_of evs"
    by (simp_all add: ih map_keys_def comp_def)
  from snoc.prems have new: "addr_of ev \<notin> set (map addr_of evs)" by simp
  then have miss: "map_get (ipInfoCache ?st) (addr_of ev) = None"
    by (simp add: map_get_None k1)
  from snoc.prems have "map_size (ipInfoCache ?st) < MAX_CACHE_SIZE"
    by (simp add: map_size_def ih)
  then have ev: "evict_oldest ?st = ?st" by (rule evict_below)
  have n1: "addr_of ev \<notin> set (map_keys (map (\<lambda>ev. (addr_of ev, stored_of ev)) evs))"
    and n2: "addr_of ev \<notin> set (map_keys (map (\<lambda>ev. (addr_of ev, time_of ev)) evs))"
    using new by (simp_all add: map_keys_def comp_def)
  show ?case
    by (simp add: serve_all_snoc serve_miss[OF miss] ev ih map_set_new[OF n1] map_set_new[OF n2])
qed

lemma overflow:
  assumes len: "length evs = MAX_CACHE_SIZE + 1"
    and dist: "distinct (map addr_of evs)"
    and incr: "sorted_wrt (<) (map time_of evs)"
  shows "map_keys (ipInfoCache (serve_all empty_cache evs)) = tl (map addr_of evs) \<and>
         map_keys (ipAccessTimes (serve_all empty_cache evs)) = tl (map addr_of evs) \<and>
         ipAccessTimes (serve_all empty_cache evs)
           = map (\<lambda>ev. (addr_of ev, time_of ev)) (tl evs)"
proof -
  from len obtain evs0 ev where evs: "evs = evs0 @ [ev]" and len0: "length evs0 = MAX_CACHE_SIZE"
    by (cases evs rule: rev_cases) auto
  from len0 MAX_pos obtain e1 rest where evs0: "evs0 = e1 # rest"
    by (cases evs0) auto
  let ?st = "serve_all empty_cache evs0"
  from dist evs have d0: "distinct (map addr_of evs0)" by simp
  from fill[OF d0] len0 have
    c: "ipInfoCache ?st = map (\<lambda>ev. (addr_of ev, stored_of ev)) evs0"
    and t: "ipAccessTimes ?st = map (\<lambda>ev. (addr_of ev, time_of ev)) evs0"
    by simp_all
  from dist evs have new: "addr_of ev \<notin> set (map addr_of evs0)" by simp
  have miss: "map_get (ipInfoCache ?st) (addr_of ev) = None"
    using new by (simp add: map_get_None c map_keys_def comp_def)
  have full: "MAX_CACHE_SIZE \<le> map_size (ipInfoCache ?st)"
    by (simp add: map_size_def c len0)
  from incr evs evs0 have "\<forall>e \<in> set rest. time_of e1 < time_of e"
    by (simp add: sorted_wrt_append)
  then have "\<forall>(k', t') \<in> set (map (\<lambda>ev. (addr_of ev, time_of ev)) rest). time_of e1 \<le> t'"
    by auto
  then have keep: "oldest_scan (map (\<lambda>ev. (addr_of ev, time_of ev)) rest)
                     (Some (addr_of e1)) (Some (time_of e1)) = (Some (addr_of e1), Some (time_of e1))"
    by (rule oldest_scan_keeps)
  have t': "ipAccessTimes ?st = (addr_of e1, time_of e1) # map (\<lambda>ev. (addr_of ev, time_of ev)) rest"
    using t by (simp add: evs0)
  have scan: "oldest_scan (ipAccessTimes ?st) None None = (Some (addr_of e1), Some (time_of e1))"
    by (simp add: t' keep)
  have ne: "addr_of e1 \<noteq> []"
    by (simp add: addr_of_def getRealIP_nonempty)
  have ev: "evict_oldest ?st = ?st\<lparr>ipInfoCache := map_delete (ipInfoCache ?st) (addr_of e1),
                                     ipAccessTimes := map_delete (ipAccessTimes ?st) (addr_of e1)\<rparr>"
    using full scan ne by (simp add: evict_oldest_def)
  from d0 evs0 have fresh: "addr_of e1 \<notin> set (map addr_of rest)" by simp
  have c': "ipInfoCache ?st = (addr_of e1, stored_of e1) # map (\<lambda>ev. (addr_of ev, stored_of ev)) rest"
    using c by (simp add: evs0)
  have f1: "addr_of e1 \<notin> set (map_keys (map (\<lambda>ev. (addr_of ev, stored_of ev)) rest))"
    and f2: "addr_of e1 \<notin> set (map_keys (map (\<lambda>ev. (addr_of ev, time_of ev)) rest))"
    using fresh by (simp_all add: map_keys_def comp_def)
  have dc: "map_delete (ipInfoCache ?st) (addr_of e1) = map (\<lambda>ev. (addr_of ev, stored_of ev)) rest"
    by (simp add: c' map_delete_head[OF f1])
  have dt: "map_delete (ipAccessTimes ?st) (addr_of e1) = map (\<lambda>ev. (addr_of ev, time_of ev)) rest"
    by (simp add: t' map_delete_head[OF f2])
  from new evs0 have new': "addr_of ev \<notin> set (map addr_of rest)" by simp
  have n1: "addr_of ev \<notin> set (map_keys (map (\<lambda>ev. (addr_of ev, stored_of ev)) rest))"
    and n2: "addr_of ev \<notin> set (map_keys (map (\<lambda>ev. (addr_of ev, time_of ev)) rest))"
    using new' by (simp_all add: map_keys_def comp_def)
  have fin: "serve_all empty_cache evs = serve ?st ev"
    by (simp add: evs serve_all_snoc)
  have r1: "ipInfoCache (serve ?st ev)
            = map (\<lambda>ev. (addr_of ev, stored_of ev)) rest @ [(addr_of ev, stored_of ev)]"
    by (simp add: serve_miss[OF miss] ev dc map_set_new[OF n1])
  have r2: "ipAccessTimes (serve ?st ev)
            = map (\<lambda>ev. (addr_of ev, time_of ev)) rest @ [(addr_of ev, time_of ev)]"
    by (simp add: serve_miss[OF miss] ev dt map_set_new[OF n2])
  have tl: "tl (map addr_of evs) = map addr_of rest @ [addr_of ev]"
    by (simp add: evs evs0)
  have tl': "tl evs = rest @ [ev]"
    by (simp add: evs evs0)
  show ?thesis
    by (simp add: fin r1 r2 tl tl' map_keys_def comp_def)
qed

lemma miss_at_capacity:
  assumes inv: "cache_inv st" and full: "map_size (ipInfoCache st) = MAX_CACHE_SIZE"
    and miss: "\<not> map_has (ipInfoCache st) (getRealIP req)"
  shows "\<exists>victim. oldest_in (ipAccessTimes st) victim \<and> map_has (ipInfoCache st) victim \<and>
           ipInfoCache (evict_oldest st) = map_delete (ipInfoCache st) victim \<and>
           ipAccessTimes (evict_oldest st) = map_delete (ipAccessTimes st) victim \<and>
           map_size (ipInfoCache (evict_oldest st)) = MAX_CACHE_SIZE - 1 \<and>
           set (map_keys (ipInfoCache (snd (enrich st req now resp))))
             = insert (getRealIP req) (set (map_keys (ipInfoCache st)) - {victim}) \<and>
           set (map_keys (ipAccessTimes (snd (enrich st req now resp))))
             = insert (getRealIP req) (set (map_keys (ipAccessTimes st)) - {victim}) \<and>
           map_size (ipInfoCache (snd (enrich st req now resp))) = MAX_CACHE_SIZE \<and>
           map_get (ipAccessTimes (snd (enrich st req now resp))) (getRealIP req) = Some now"
proof -
  from miss have m: "map_get (ipInfoCache st) (getRealIP req) = None"
    by (simp add: map_has_def map_get_def)
  from full have "MAX_CACHE_SIZE \<le> map_size (ipInfoCache st)" by simp
  from evict_full[OF inv this] obtain victim where
    old: "oldest_in (ipAccessTimes st) victim"
    and v: "victim \<in> set (map_keys (ipInfoCache st))"
    and e: "evict_oldest st = st\<lparr>ipInfoCache := map_delete (ipInfoCache st) victim,
                                ipAccessTimes := map_delete (ipAccessTimes st) victim\<rparr>"
    by blast
  from v have has: "map_has (ipInfoCache st) victim"
    using map_get_None[of "ipInfoCache st" victim] by (simp add: map_has_def map_get_def)
  have len: "Suc (length (map_delete (ipInfoCache st) victim)) = length (ipInfoCache st)"
    using inv v by (simp add: cache_inv_def length_map_delete)
  from m have notin: "getRealIP req \<notin> set (map_keys (ipInfoCache st))"
    by (simp add: map_get_None)
  then have notin': "getRealIP req \<notin> set (map_keys (map_delete (ipInfoCache st) victim))"
    by (simp add: set_keys_map_delete)
  have 1: "ipInfoCache (evict_oldest st) = map_delete (ipInfoCache st) victim"
    and 2: "ipAccessTimes (evict_oldest st) = map_delete (ipAccessTimes st) victim"
    by (simp_all add: e)
  have 3: "map_size (ipInfoCache (evict_oldest st)) = MAX_CACHE_SIZE - 1"
    using len full by (simp add: 1 map_size_def)
  have 4: "set (map_keys (ipInfoCache (snd (enrich st req now resp))))
             = insert (getRealIP req) (set (map_keys (ipInfoCache st)) - {victim})"
    by (simp add: enrich_miss[OF m] getIPInfo_miss[OF m] 1 keys_map_set set_keys_map_delete)
  have 5: "set (map_keys (ipAccessTimes (snd (enrich st req now resp))))
             = insert (getRealIP req) (set (map_keys (ipAccessTimes st)) - {victim})"
    by (simp add: enrich_miss[OF m] getIPInfo_miss[OF m] 2 keys_map_set set_keys_map_delete)
  have 6: "map_size (ipInfoCache (snd (enrich st req now resp))) = MAX_CACHE_SIZE"
    using len full notin' MAX_pos
    by (simp add: enrich_miss[OF m] getIPInfo_miss[OF m] 1 length_map_set map_size_def)
  have 7: "map_get (ipAccessTimes (snd (enrich st req now resp))) (getRealIP req) = Some now"
    by (simp add: enrich_miss[OF m] getIPInfo_miss[OF m] map_get_map_set)
  from old has 1 2 3 4 5 6 7 show ?thesis by blast
qed

lemma keys_agree_getIPInfo:
  assumes "set (map_keys (ipInfoCache st)) = set (map_keys (ipAccessTimes st))"
  shows "set (map_keys (ipInfoCache (snd (getIPInfo st addr now resp))))
         = set (map_keys (ipAccessTimes (snd (getIPInfo st addr now resp))))"
proof (cases "map_get (ipInfoCache st) addr")
  case None
  have "set (map_keys (ipInfoCache (evict_oldest st)))
        = set (map_keys (ipAccessTimes (evict_oldest st)))"
    using assms by (simp add: evict_oldest_def set_keys_map_delete split: option.splits)
  then show ?thesis
    by (simp add: getIPInfo_miss[OF None] keys_map_set)
next
  case (Some stored)
  then have "addr \<in> set (map_keys (ipInfoCache st))"
    using map_get_None[of "ipInfoCache st" addr] by simp
  with assms show ?thesis
    by (auto simp: getIPInfo_hit[OF Some] keys_map_set)
qed

lemma str_includes_single: "str_includes s [c] = (c \<in> set s)"
  by (induction s) auto

lemma getRealIP_peer:
  assumes "a \<noteq> []" and "CHR '','' \<notin> set a" and "take 7 a \<noteq> ''::ffff:''"
  shows "getRealIP (peer a) = a"
  using assms by (simp add: getRealIP_def peer_def js_or_def str_includes_single)

lemma length_hex_digits: "length hex_digits = 16"
  by (simp add: hex_digits_def)

lemma hex_digit_mem: "d < 16 \<Longrightarrow> hex_digits ! d \<in> set hex_digits"
  by (rule nth_mem) (simp add: length_hex_digits)

lemma hex_digit_inj: "d < 16 \<Longrightarrow> e < 16 \<Longrightarrow> hex_digits ! d = hex_digits ! e \<Longrightarrow> d = e"
proof -
  assume "d < 16" "e < 16" "hex_digits ! d = hex_digits ! e"
  moreover have "distinct hex_digits" by (simp add: hex_digits_def)
  ultimately show "d = e"
    by (simp add: nth_eq_iff_index_eq length_hex_digits)
qed

lemma example_addr_inj:
  assumes "m < 256" "n < 256" "example_addr m = example_addr n"
  shows "m = n"
proof -
  from assms(3) have "hex_digits ! (m div 16) = hex_digits ! (n div 16)"
    and "hex_digits ! (m mod 16) = hex_digits ! (n mod 16)"
    by (simp_all add: example_addr_def)
  with assms(1,2) have "m div 16 = n div 16" "m mod 16 = n mod 16"
    by (auto intro!: hex_digit_inj simp: less_mult_imp_div_less)
  then show ?thesis by (metis div_mult_mod_eq)
qed

lemma addr_of_example: "n < 256 \<Longrightarrow> addr_of (example_event n) = example_addr n"
proof -
  assume n: "n < 256"
  then have "n div 16 < 16" by (simp add: less_mult_imp_div_less)
  then have a: "hex_digits ! (n div 16) \<in> set hex_digits" by (rule hex_digit_mem)
  have b: "hex_digits ! (n mod 16) \<in> set hex_digits" by (rule hex_digit_mem) simp
  have nc: "CHR '','' \<notin> set hex_digits" by (simp add: hex_digits_def)
  from a b nc have "CHR '','' \<noteq> hex_digits ! (n div 16)" "CHR '','' \<noteq> hex_digits ! (n mod 16)"
    by auto
  then have "getRealIP (peer (example_addr n)) = example_addr n"
    by (intro getRealIP_peer) (simp_all add: example_addr_def)
  then show ?thesis by (simp add: addr_of_def example_event_def)
qed

lemma addrs_example: "n \<le> 256 \<Longrightarrow> map addr_of (map example_event [0..<n]) = map example_addr [0..<n]"
  by (simp add: addr_of_example)

lemma distinct_example: "n \<le> 256 \<Longrightarrow> distinct (map addr_of (map example_event [0..<n]))"
proof -
  assume n: "n \<le> 256"
  then have "inj_on example_addr (set [0..<n])"
    by (auto simp: inj_on_def intro: example_addr_inj)
  then have "distinct (map example_addr [0..<n])"
    by (simp add: distinct_map)
  with n show ?thesis by (simp only: addrs_example)
qed

lemma increasing_example: "sorted_wrt (<) (map time_of (map example_event [0..<n]))"
  by (simp add: sorted_wrt_map time_of_def example_event_def sorted_wrt_mono_rel[OF _ sorted_wrt_upt])

lemma upt_101: "[0..<101] = [0..<100] @ [100::nat]"
  using upt_Suc_append[of 0 100] by simp

lemma upt_101_Cons: "[0..<101] = 0 # [1..<101]"
  using upt_conv_Cons[of 0 101] by simp

lemma upt_100_Cons: "[0..<100] = 0 # [1..<100]"
  using upt_conv_Cons[of 0 100] by simp

lemma butlast_example: "butlast example_events = map example_event [0..<100]"
  by (simp add: example_events_def upt_101)

lemma last_example: "last example_events = example_event 100"
  by (simp add: example_events_def upt_101)

lemma split_example: "example_events = butlast example_events @ [last example_events]"
  by (simp add: butlast_example last_example) (simp add: example_events_def upt_101)

lemma length_example: "length example_events = MAX_CACHE_SIZE + 1"
  by (simp add: example_events_def MAX_CACHE_SIZE_def)

lemma distinct_example_events: "distinct (map addr_of example_events)"
  unfolding example_events_def by (rule distinct_example) simp

lemma increasing_example_events: "sorted_wrt (<) (map time_of example_events)"
  unfolding example_events_def by (rule increasing_example)

lemma addrs_example_events: "map addr_of example_events = example_addr 0 # map example_addr [1..<101]"
proof -
  have "map addr_of example_events = map example_addr [0..<101]"
    unfolding example_events_def by (rule addrs_example) simp
  then show ?thesis by (simp add: upt_101_Cons)
qed

lemma act_arrive_hit:
  "map_has (ipInfoCache (cache sv)) (getRealIP req) \<Longrightarrow> act sv (Arrive req) = sv"
  by (simp add: act_def Let_def)

lemma act_arrive_miss:
  "\<not> map_has (ipInfoCache (cache sv)) (getRealIP req) \<Longrightarrow>
   cache (act sv (Arrive req)) = lookup_start (cache sv) (getRealIP req) \<and>
   waiting (act sv (Arrive req)) = waiting sv @ [getRealIP req]"
  by (simp add: act_def Let_def)

lemma act_respond:
  "addr \<in> set (waiting sv) \<Longrightarrow>
   cache (act sv (Respond addr now resp)) = snd (lookup_finish (cache sv) addr now resp) \<and>
   waiting (act sv (Respond addr now resp)) = remove1 addr (waiting sv)"
  by (simp add: act_def)

lemma act_respond_idle: "addr \<notin> set (waiting sv) \<Longrightarrow> act sv (Respond addr now resp) = sv"
  by (simp add: act_def)

lemma map_has_get: "map_has m k = (map_get m k \<noteq> None)"
  by (simp add: map_has_def map_get_def)

lemma act_one_request:
  assumes "waiting sv = []"
  shows "cache (act (act sv (Arrive req)) (Respond (getRealIP req) now resp))
           = serve (cache sv) (req, now, resp) \<and>
         waiting (act (act sv (Arrive req)) (Respond (getRealIP req) now resp)) = []"
proof (cases "map_get (ipInfoCache (cache sv)) (getRealIP req)")
  case None
  then have miss: "\<not> map_has (ipInfoCache (cache sv)) (getRealIP req)"
    by (simp add: map_has_get)
  from act_arrive_miss[OF miss] assms
  have 1: "cache (act sv (Arrive req)) = lookup_start (cache sv) (getRealIP req)"
    and 2: "waiting (act sv (Arrive req)) = [getRealIP req]"
    by simp_all
  from 2 have "getRealIP req \<in> set (waiting (act sv (Arrive req)))" by simp
  from act_respond[OF this, of now resp] 1 2 None show ?thesis
    by (simp add: serve_def enrich_def getIPInfo_def Let_def)
next
  case (Some stored)
  then have hit: "map_has (ipInfoCache (cache sv)) (getRealIP req)"
    by (simp add: map_has_get)
  have "act (act sv (Arrive req)) (Respond (getRealIP req) now resp) = sv"
    using assms by (simp add: act_arrive_hit[OF hit] act_respond_idle)
  with Some assms show ?thesis
    by (simp add: serve_def enrich_def Let_def)
qed

lemma run_append: "run sv (xs @ ys) = run (run sv xs) ys"
  by (simp add: run_def)

lemma run_one_by_one:
  "waiting sv = [] \<Longrightarrow>
   cache (run sv (one_by_one evs)) = serve_all (cache sv) evs \<and>
   waiting (run sv (one_by_one evs)) = []"
proof (induction evs arbitrary: sv)
  case Nil
  then show ?case by (simp add: run_def one_by_one_def serve_all_def)
next
  case (Cons ev evs)
  obtain req now resp where ev: "ev = (req, now, resp)" by (cases ev)
  let ?sv = "act (act sv (Arrive req)) (Respond (getRealIP req) now resp)"
  from act_one_request[OF Cons.prems, of req now resp]
  have c: "cache ?sv = serve (cache sv) (req, now, resp)" and w: "waiting ?sv = []"
    by simp_all
  have "run sv (one_by_one (ev # evs)) = run ?sv (one_by_one evs)"
    by (simp add: ev run_def one_by_one_def)
  with Cons.IH[OF w] c show ?case
    by (simp add: ev serve_all_def)
qed

lemma keys_agree_start:
  "set (map_keys (ipInfoCache st)) = set (map_keys (ipAccessTimes st)) \<Longrightarrow>
   set (map_keys (ipInfoCache (lookup_start st addr)))
     = set (map_keys (ipAccessTimes (lookup_start st addr)))"
  by (simp add: lookup_start_def Let_def evict_oldest_def set_keys_map_delete split: option.splits)

lemma keys_agree_finish:
  "set (map_keys (ipInfoCache st)) = set (map_keys (ipAccessTimes st)) \<Longrightarrow>
   set (map_keys (ipInfoCache (snd (lookup_finish st addr now resp))))
     = set (map_keys (ipAccessTimes (snd (lookup_finish st addr now resp))))"
  by (simp add: lookup_finish_def keys_map_set split: response.splits)

lemma keys_agree_act:
  "set (map_keys (ipInfoCache (cache sv))) = set (map_keys (ipAccessTimes (cache sv))) \<Longrightarrow>
   set (map_keys (ipInfoCache (cache (act sv a))))
     = set (map_keys (ipAccessTimes (cache (act sv a))))"
  by (cases a) (simp_all add: act_def Let_def keys_agree_start keys_agree_finish)

lemma keys_agree_run:
  "set (map_keys (ipInfoCache (cache (run idle acts))))
     = set (map_keys (ipAccessTimes (cache (run idle acts))))"
proof (induction acts rule: rev_induct)
  case Nil
  then show ?case by (simp add: run_def idle_def empty_cache_def map_keys_def)
next
  case (snoc a acts)
  then show ?case by (simp add: run_def keys_agree_act)
qed

lemma example_addr_new:
  assumes "n < 256" "m \<le> n"
  shows "example_addr n \<notin> set (map example_addr [0..<m])"
proof
  assume "example_addr n \<in> set (map example_addr [0..<m])"
  then obtain x where x: "x < m" "example_addr n = example_addr x" by auto
  with assms have "n = x" using example_addr_inj[of n x] by simp
  with x assms show False by simp
qed

lemma getRealIP_example: "n < 256 \<Longrightarrow> getRealIP (peer (example_addr n)) = example_addr n"
  using addr_of_example[of n] by (simp add: addr_of_def example_event_def)

lemma overlap_result:
  "ipInfoCache (cache (run idle overlapping_misses))
     = map (\<lambda>ev. (addr_of ev, stored_of ev)) (map example_event [0..<99])
       @ [(example_addr 99, None), (example_addr 100, None)] \<and>
   waiting (run idle overlapping_misses) = []"
proof -
  let ?c = "serve_all empty_cache (map example_event [0..<99])"
  let ?sv0 = "run idle (one_by_one (map example_event [0..<99]))"
  define body where "body = map (\<lambda>ev. (addr_of ev, stored_of ev)) (map example_event [0..<99])"
  have d99: "distinct (map addr_of (map example_event [0..<99]))"
    by (rule distinct_example) simp
  have f: "ipInfoCache ?c = body"
    using fill[OF d99] by (simp add: MAX_CACHE_SIZE_def body_def)
  have k: "map_keys body = map example_addr [0..<99]"
    using addrs_example[of 99] by (simp add: map_keys_def comp_def body_def)
  have len: "length body = 99" by (simp add: body_def)
  have sv0: "cache ?sv0 = ?c" "waiting ?sv0 = []"
    using run_one_by_one[of idle "map example_event [0..<99]"] by (simp_all add: idle_def)
  have small: "map_size (ipInfoCache ?c) < MAX_CACHE_SIZE"
    by (simp add: f len map_size_def MAX_CACHE_SIZE_def)
  have a99: "getRealIP (peer (example_addr 99)) = example_addr 99"
    and a100: "getRealIP (peer (example_addr 100)) = example_addr 100"
    by (simp_all add: getRealIP_example)
  have n99: "example_addr 99 \<notin> set (map_keys body)"
    and n100: "example_addr 100 \<notin> set (map_keys body)"
    unfolding k by (rule example_addr_new; simp)+
  have ne: "example_addr 100 \<noteq> example_addr 99"
    using example_addr_inj[of 100 99] by auto
  let ?sv1 = "act ?sv0 (Arrive (peer (example_addr 99)))"
  have m1: "\<not> map_has (ipInfoCache (cache ?sv0)) (getRealIP (peer (example_addr 99)))"
    using n99 by (simp add: sv0 f a99 map_has_get map_get_None)
  from act_arrive_miss[OF m1]
  have c1: "ipInfoCache (cache ?sv1) = body" and w1: "waiting ?sv1 = [example_addr 99]"
    by (simp_all add: sv0 a99 lookup_start_def Let_def evict_below[OF small] f)
  let ?sv2 = "act ?sv1 (Arrive (peer (example_addr 100)))"
  have m2: "\<not> map_has (ipInfoCache (cache ?sv1)) (getRealIP (peer (example_addr 100)))"
    using n100 by (simp add: c1 a100 map_has_get map_get_None)
  have small1: "map_size (ipInfoCache (cache ?sv1)) < MAX_CACHE_SIZE"
    by (simp add: c1 len map_size_def MAX_CACHE_SIZE_def)
  from act_arrive_miss[OF m2]
  have c2: "ipInfoCache (cache ?sv2) = body"
    and w2: "waiting ?sv2 = [example_addr 99, example_addr 100]"
    by (simp_all add: a100 w1 lookup_start_def Let_def evict_below[OF small1] c1)
  let ?sv3 = "act ?sv2 (Respond (example_addr 99) 99 Failed)"
  have in3: "example_addr 99 \<in> set (waiting ?sv2)" by (simp add: w2)
  from act_respond[OF in3, of 99 Failed]
  have c3: "ipInfoCache (cache ?sv3) = body @ [(example_addr 99, None)]"
    and w3: "waiting ?sv3 = [example_addr 100]"
    by (simp_all add: lookup_finish_def c2 w2 map_set_new[OF n99])
  let ?sv4 = "act ?sv3 (Respond (example_addr 100) 100 Failed)"
  have in4: "example_addr 100 \<in> set (waiting ?sv3)" by (simp add: w3)
  have n100': "example_addr 100 \<notin> set (map_keys (body @ [(example_addr 99, None)]))"
    using n100 ne by (simp add: map_keys_simps)
  from act_respond[OF in4, of 100 Failed]
  have c4: "ipInfoCache (cache ?sv4)
            = (body @ [(example_addr 99, None)]) @ [(example_addr 100, None)]"
    and w4: "waiting ?sv4 = []"
    by (simp_all add: lookup_finish_def c3 w3 map_set_new[OF n100'])
  have "run idle overlapping_misses = ?sv4"
    by (simp add: overlapping_misses_def run_append) (simp add: run_def)
  with c4 w4 show ?thesis by (simp add: body_def)
qed

lemma upt_99: "[0..<101] = [0..<99] @ [99, 100::nat]"
proof -
  have "[0..<100] = [0..<99] @ [99::nat]"
    using upt_Suc_append[of 0 99] by simp
  then show ?thesis by (simp add: upt_101)
qed

lemma overlap_keys:
  "map_keys (ipInfoCache (cache (run idle overlapping_misses))) = map example_addr [0..<101]"
proof -
  have "map_keys (map (\<lambda>ev. (addr_of ev, stored_of ev)) (map example_event [0..<99]))
        = map example_addr [0..<99]"
    using addrs_example[of 99] by (simp add: map_keys_def comp_def)
  then show ?thesis
    using overlap_result by (simp add: map_keys_simps upt_99)
qed

lemma one_by_one_keys:
  "map_keys (ipInfoCache (cache (run idle (one_by_one example_events))))
     = map example_addr [1..<101]"
proof -
  have "cache (run idle (one_by_one example_events)) = serve_all empty_cache example_events"
    using run_one_by_one[of idle example_events] by (simp add: idle_def)
  moreover from overflow[OF length_example distinct_example_events increasing_example_events]
  have "map_keys (ipInfoCache (serve_all empty_cache example_events)) = map example_addr [1..<101]"
    by (simp add: addrs_example_events)
  ultimately show ?thesis by simp
qed

lemma all_less_list: "(\<forall>j<i. P j) = list_all P [0..<i]"
  by (auto simp: list_all_iff)

section \<open>The download gate: applicability and the referrer allowlist\<close>

text \<open>
  Claim C1. A request whose path extension (compared in lower case) is not one of
  \<open>fileExts\<close>, whose Accept header contains neither \<^verbatim>\<open>application/octet-stream\<close> nor
  \<^verbatim>\<open>attachment\<close>, and whose Content-Disposition header does not contain \<^verbatim>\<open>attachment\<close>,
  is allowed at once, whatever the configuration, the other headers and the cookies are.
\<close>

theorem non_download_allowed:
  assumes "toLowerCase (extname (path req)) \<notin> set fileExts"
    and "\<not> header_contains req ''accept'' ''application/octet-stream''"
    and "\<not> header_contains req ''accept'' ''attachment''"
    and "\<not> header_contains req ''content-disposition'' ''attachment''"
  shows "validateDownloadRequest cfg req = Allow"
proof -
  have "\<not> isFileDownload req"
    using assms by (simp add: isFileDownload_iff)
  then show ?thesis
    by (simp add: validateDownloadRequest_def)
qed

theorem non_download_allowed_witness:
  "toLowerCase (extname (path request_page)) \<notin> set fileExts \<and>
   \<not> header_contains request_page ''accept'' ''application/octet-stream'' \<and>
   \<not> header_contains request_page ''accept'' ''attachment'' \<and>
   \<not> header_contains request_page ''content-disposition'' ''attachment'' \<and>
   headers request_page ''user-agent'' = Some ''curl/8.0'' \<and>
   validateDownloadRequest cfg_strict request_page = Allow"
proof -
  have h1: "toLowerCase (extname (path request_page)) \<notin> set fileExts"
    by code_simp
  have h2: "\<not> header_contains request_page ''accept'' ''application/octet-stream''"
    by code_simp
  have h3: "\<not> header_contains request_page ''accept'' ''attachment''"
    by code_simp
  have h4: "\<not> header_contains request_page ''content-disposition'' ''attachment''"
    by code_simp
  have u: "headers request_page ''user-agent'' = Some ''curl/8.0''"
    by code_simp
  from h1 h2 h3 h4 u non_download_allowed[OF h1 h2 h3 h4, of cfg_strict] show ?thesis
    by blast
qed

text \<open>
  Claim C2, as stated, fails: a download request that carries the header
  \<^verbatim>\<open>Referer: https://trusted.example/page\<close>, whose value contains the configured domain
  \<^verbatim>\<open>trusted.example\<close>, together with a header \<^verbatim>\<open>Referrer: x\<close>, does not take the bypass,
  because the gate reads the value of \<^verbatim>\<open>Referrer\<close> first; it is then denied by the
  user-agent check.
\<close>

theorem allowlisted_referer_shadowed_counterexample:
  "isFileDownload request_two_referrers \<and>
   downloadCheck cfg_strict = Some dc_strict \<and> enableReferrer dc_strict \<and>
   allowedRefDomains dc_strict = Some [''trusted.example''] \<and>
   header_contains request_two_referrers ''referer'' ''trusted.example'' \<and>
   validateDownloadRequest cfg_strict request_two_referrers = Deny UserAgentReason"
proof -
  have 1: "isFileDownload request_two_referrers" by code_simp
  have 2: "downloadCheck cfg_strict = Some dc_strict" by (simp add: cfg_strict_def)
  have 3: "enableReferrer dc_strict" by (simp add: dc_strict_def)
  have 4: "allowedRefDomains dc_strict = Some [''trusted.example'']" by (simp add: dc_strict_def)
  have 5: "header_contains request_two_referrers ''referer'' ''trusted.example''" by code_simp
  have 6: "validateDownloadRequest cfg_strict request_two_referrers = Deny UserAgentReason"
    by code_simp
  from 1 2 3 4 5 6 show ?thesis by blast
qed

text \<open>
  Claim C2, amended. With \<^verbatim>\<open>enableReferrer\<close> set and a list of allowed domains configured,
  a download request is allowed at once when the referrer value the gate reads, which is
  the first non-empty value among the headers \<^verbatim>\<open>Referrer\<close> and \<^verbatim>\<open>Referer\<close>, contains one of
  the configured domains; nothing is assumed about the user agent or the other headers.
\<close>

theorem allowlisted_referrer_allowed:
  assumes dl: "isFileDownload req"
    and dc: "downloadCheck cfg = Some dc" "enableReferrer dc"
    and doms: "allowedRefDomains dc = Some domains"
    and ref: "first_nonempty [headers req ''referrer'', headers req ''referer''] = Some r"
    and dom: "domain \<in> set domains" "str_includes r domain"
  shows "validateDownloadRequest cfg req = Allow"
proof -
  from ref have r: "referrer_of req = Some r" "r \<noteq> []"
    using referrer_first_nonempty by blast+
  have "referrer_allowed cfg req"
    using dc doms r dom by (auto simp: referrer_allowed_def list_ex_iff)
  then show ?thesis
    by (simp add: validateDownloadRequest_def)
qed

theorem allowlisted_referrer_allowed_witness:
  "isFileDownload request_trusted_curl \<and>
   downloadCheck cfg_strict = Some dc_strict \<and> enableReferrer dc_strict \<and>
   allowedRefDomains dc_strict = Some [''trusted.example''] \<and>
   first_nonempty [headers request_trusted_curl ''referrer'', headers request_trusted_curl ''referer'']
     = Some ''https://trusted.example/page'' \<and>
   str_includes ''https://trusted.example/page'' ''trusted.example'' \<and>
   \<not> isValidBrowser (req_get request_trusted_curl ''User-Agent'') \<and>
   \<not> checkModernBrowserFeatures request_trusted_curl \<and>
   validateDownloadRequest cfg_strict request_trusted_curl = Allow"
proof -
  have 1: "isFileDownload request_trusted_curl" by code_simp
  have 2: "downloadCheck cfg_strict = Some dc_strict" by (simp add: cfg_strict_def)
  have 3: "enableReferrer dc_strict" by (simp add: dc_strict_def)
  have 4: "allowedRefDomains dc_strict = Some [''trusted.example'']" by (simp add: dc_strict_def)
  have 5: "first_nonempty [headers request_trusted_curl ''referrer'',
             headers request_trusted_curl ''referer''] = Some ''https://trusted.example/page''"
    by code_simp
  have 6: "''trusted.example'' \<in> set [''trusted.example'']" by simp
  have 7: "str_includes ''https://trusted.example/page'' ''trusted.example''" by code_simp
  have 8: "\<not> isValidBrowser (req_get request_trusted_curl ''User-Agent'')" by code_simp
  have 9: "\<not> checkModernBrowserFeatures request_trusted_curl" by code_simp
  have "validateDownloadRequest cfg_strict request_trusted_curl = Allow"
    using 1 2 3 4 5 6 7 by (rule allowlisted_referrer_allowed)
  with 1 2 3 4 5 7 8 9 show ?thesis by blast
qed

section \<open>The download gate: user agent and header features\<close>

text \<open>
  Claim C3, as stated, fails in its second half: the user agent
  \<^verbatim>\<open>Mozilla/5.0 Chrome/50 Chrome/80\<close> matches no blocked pattern and contains the token
  \<^verbatim>\<open>Chrome\<close> with the version 80 (at index 22), but the pattern matches first at the
  earlier \<^verbatim>\<open>Chrome/50\<close>, so the user-agent check fails and the request is denied.
\<close>

theorem later_version_ignored_counterexample:
  "isFileDownload request_two_versions \<and> flag cfg_user_agent_only enableUserAgent \<and>
   \<not> referrer_allowed cfg_user_agent_only request_two_versions \<and>
   headers request_two_versions ''user-agent'' = Some ''Mozilla/5.0 Chrome/50 Chrome/80'' \<and>
   \<not> matches_blocked ''Mozilla/5.0 Chrome/50 Chrome/80'' \<and>
   ''Chrome'' \<in> set modernBrowsers \<and>
   token_at ''Chrome'' ''Mozilla/5.0 Chrome/50 Chrome/80'' 22 \<and>
   version_at ''Chrome'' ''Mozilla/5.0 Chrome/50 Chrome/80'' 22 = 80 \<and>
   \<not> isValidBrowser (req_get request_two_versions ''User-Agent'') \<and>
   validateDownloadRequest cfg_user_agent_only request_two_versions = Deny UserAgentReason"
proof -
  have 1: "isFileDownload request_two_versions" by code_simp
  have 2: "flag cfg_user_agent_only enableUserAgent" by code_simp
  have 3: "\<not> referrer_allowed cfg_user_agent_only request_two_versions" by code_simp
  have 4: "headers request_two_versions ''user-agent'' = Some ''Mozilla/5.0 Chrome/50 Chrome/80''"
    by code_simp
  have 5: "\<not> matches_blocked ''Mozilla/5.0 Chrome/50 Chrome/80''" by code_simp
  have 6: "''Chrome'' \<in> set modernBrowsers" by code_simp
  have 7: "token_at ''Chrome'' ''Mozilla/5.0 Chrome/50 Chrome/80'' 22" by code_simp
  have 8: "version_at ''Chrome'' ''Mozilla/5.0 Chrome/50 Chrome/80'' 22 = 80" by code_simp
  have 9: "\<not> isValidBrowser (req_get request_two_versions ''User-Agent'')" by code_simp
  have 10: "validateDownloadRequest cfg_user_agent_only request_two_versions = Deny UserAgentReason"
    by code_simp
  from 1 2 3 4 5 6 7 8 9 10 show ?thesis by blast
qed

text \<open>
  Claim C3, amended. With \<^verbatim>\<open>enableUserAgent\<close> set and the bypass not taken, a download
  request whose user agent is absent, empty or matching a blocked pattern (in any letter
  case) is denied. A user agent that matches no blocked pattern, and in which the leftmost
  occurrence of one of the five browser tokens followed by a slash and a digit carries a
  version of at least 70, passes the user-agent check.
\<close>

theorem user_agent_step:
  "(isFileDownload req \<and> flag cfg enableUserAgent \<and> \<not> referrer_allowed cfg req \<and>
      (\<not> header_present req ''user-agent'' \<or> headers req ''user-agent'' = Some [] \<or>
       (\<exists>ua. headers req ''user-agent'' = Some ua \<and> matches_blocked ua))
      \<longrightarrow> validateDownloadRequest cfg req = Deny UserAgentReason)
   \<and>
   (headers req ''user-agent'' = Some ua \<and> \<not> matches_blocked ua \<and>
      token \<in> set modernBrowsers \<and> token_at token ua i \<and> (\<forall>j<i. \<not> token_at token ua j) \<and>
      70 \<le> version_at token ua i
      \<longrightarrow> isValidBrowser (req_get req ''User-Agent'') \<and>
          validateDownloadRequest cfg req \<noteq> Deny UserAgentReason)"
proof (intro conjI impI)
  assume a: "isFileDownload req \<and> flag cfg enableUserAgent \<and> \<not> referrer_allowed cfg req \<and>
      (\<not> header_present req ''user-agent'' \<or> headers req ''user-agent'' = Some [] \<or>
       (\<exists>ua. headers req ''user-agent'' = Some ua \<and> matches_blocked ua))"
  then have "\<not> isValidBrowser (headers req ''user-agent'')"
    by (auto simp: header_present_def isValidBrowser_absent isValidBrowser_blocked)
  with a show "validateDownloadRequest cfg req = Deny UserAgentReason"
    by (simp add: validate_deny_ua)
next
  assume b: "headers req ''user-agent'' = Some ua \<and> \<not> matches_blocked ua \<and>
      token \<in> set modernBrowsers \<and> token_at token ua i \<and> (\<forall>j<i. \<not> token_at token ua j) \<and>
      70 \<le> version_at token ua i"
  then have v: "isValidBrowser (headers req ''user-agent'')"
    using isValidBrowser_first[of ua token i] by simp
  then show "isValidBrowser (req_get req ''User-Agent'')"
    by (simp add: user_agent_eq)
  from v show "validateDownloadRequest cfg req \<noteq> Deny UserAgentReason"
    by (rule validate_not_deny_ua)
qed

theorem user_agent_step_witness:
  "isFileDownload request_curl \<and> flag cfg_user_agent_only enableUserAgent \<and>
   \<not> referrer_allowed cfg_user_agent_only request_curl \<and>
   headers request_curl ''user-agent'' = Some ''curl/8.0'' \<and> matches_blocked ''curl/8.0'' \<and>
   validateDownloadRequest cfg_user_agent_only request_curl = Deny UserAgentReason \<and>
   headers request_chrome ''user-agent'' = Some ''Mozilla/5.0 Chrome/80'' \<and>
   \<not> matches_blocked ''Mozilla/5.0 Chrome/80'' \<and> ''Chrome'' \<in> set modernBrowsers \<and>
   token_at ''Chrome'' ''Mozilla/5.0 Chrome/80'' 12 \<and>
   list_all (\<lambda>j. \<not> token_at ''Chrome'' ''Mozilla/5.0 Chrome/80'' j) [0..<12] \<and>
   70 \<le> version_at ''Chrome'' ''Mozilla/5.0 Chrome/80'' 12 \<and>
   isValidBrowser (req_get request_chrome ''User-Agent'') \<and>
   validateDownloadRequest cfg_user_agent_only request_chrome \<noteq> Deny UserAgentReason"
proof -
  have 1: "isFileDownload request_curl" by code_simp
  have 2: "flag cfg_user_agent_only enableUserAgent" by code_simp
  have 3: "\<not> referrer_allowed cfg_user_agent_only request_curl" by code_simp
  have 4: "headers request_curl ''user-agent'' = Some ''curl/8.0''" by code_simp
  have 5: "matches_blocked ''curl/8.0''" by code_simp
  have 6: "headers request_chrome ''user-agent'' = Some ''Mozilla/5.0 Chrome/80''" by code_simp
  have 7: "\<not> matches_blocked ''Mozilla/5.0 Chrome/80''" by code_simp
  have 8: "''Chrome'' \<in> set modernBrowsers" by code_simp
  have 9: "token_at ''Chrome'' ''Mozilla/5.0 Chrome/80'' 12" by code_simp
  have 10: "list_all (\<lambda>j. \<not> token_at ''Chrome'' ''Mozilla/5.0 Chrome/80'' j) [0..<12]"
    by code_simp
  then have 11: "\<forall>j<12. \<not> token_at ''Chrome'' ''Mozilla/5.0 Chrome/80'' j"
    by (simp only: all_less_list)
  have 12: "70 \<le> version_at ''Chrome'' ''Mozilla/5.0 Chrome/80'' 12" by code_simp
  have a: "validateDownloadRequest cfg_user_agent_only request_curl = Deny UserAgentReason"
    using user_agent_step[of request_curl cfg_user_agent_only] 1 2 3 4 5 by blast
  have b: "isValidBrowser (req_get request_chrome ''User-Agent'') \<and>
           validateDownloadRequest cfg_user_agent_only request_chrome \<noteq> Deny UserAgentReason"
    using user_agent_step[of request_chrome cfg_user_agent_only "''Mozilla/5.0 Chrome/80''"
        "''Chrome''" 12] 6 7 8 9 11 12 by blast
  from 1 2 3 4 5 a 6 7 8 9 10 12 b show ?thesis by blast
qed

text \<open>
  Claim C4, as stated, fails in its second half: a download request whose Accept header
  contains \<^verbatim>\<open>text/html\<close> and \<^verbatim>\<open>image/webp\<close>, whose Accept-Encoding contains \<^verbatim>\<open>gzip\<close> and
  \<^verbatim>\<open>deflate\<close>, with Cache-Control present and with Accept-Language present but empty,
  scores 4 and is denied: a header scores only when its value is non-empty.
\<close>

theorem empty_language_counterexample:
  "isFileDownload request_empty_language \<and> flag cfg_features_only enableBrowserFeature \<and>
   header_contains request_empty_language ''accept'' ''text/html'' \<and>
   header_contains request_empty_language ''accept'' ''image/webp'' \<and>
   header_present request_empty_language ''accept-language'' \<and>
   header_contains request_empty_language ''accept-encoding'' ''gzip'' \<and>
   header_contains request_empty_language ''accept-encoding'' ''deflate'' \<and>
   header_present request_empty_language ''cache-control'' \<and>
   featureScore request_empty_language = 4 \<and>
   \<not> checkModernBrowserFeatures request_empty_language \<and>
   validateDownloadRequest cfg_features_only request_empty_language = Deny BrowserFeatureReason"
proof -
  have 1: "isFileDownload request_empty_language" by code_simp
  have 2: "flag cfg_features_only enableBrowserFeature" by code_simp
  have 3: "header_contains request_empty_language ''accept'' ''text/html''" by code_simp
  have 4: "header_contains request_empty_language ''accept'' ''image/webp''" by code_simp
  have 5: "header_present request_empty_language ''accept-language''" by code_simp
  have 6: "header_contains request_empty_language ''accept-encoding'' ''gzip''" by code_simp
  have 7: "header_contains request_empty_language ''accept-encoding'' ''deflate''" by code_simp
  have 8: "header_present request_empty_language ''cache-control''" by code_simp
  have 9: "featureScore request_empty_language = 4" by code_simp
  have 10: "\<not> checkModernBrowserFeatures request_empty_language" by code_simp
  have 11: "validateDownloadRequest cfg_features_only request_empty_language
            = Deny BrowserFeatureReason" by code_simp
  from 1 2 3 4 5 6 7 8 9 10 11 show ?thesis by blast
qed

text \<open>
  Claim C4, amended. With \<^verbatim>\<open>enableBrowserFeature\<close> set and no earlier step deciding, a
  download request whose only scored header is \<^verbatim>\<open>Accept: */*\<close> scores 0 and is denied. A
  request whose Accept contains \<^verbatim>\<open>text/html\<close> and \<^verbatim>\<open>image/webp\<close>, whose Accept-Encoding
  contains \<^verbatim>\<open>gzip\<close> and \<^verbatim>\<open>deflate\<close>, and whose Accept-Language and Cache-Control are present
  and non-empty, scores at least 5 and passes the feature check.
\<close>

theorem feature_score_step:
  "(isFileDownload req \<and> flag cfg enableBrowserFeature \<and> \<not> referrer_allowed cfg req \<and>
      (flag cfg enableUserAgent \<longrightarrow> isValidBrowser (req_get req ''User-Agent'')) \<and>
      headers req ''accept'' = Some ''*/*'' \<and>
      (\<forall>name \<in> set scored_headers. name \<noteq> ''accept'' \<longrightarrow> \<not> header_present req name)
      \<longrightarrow> featureScore req = 0 \<and>
          validateDownloadRequest cfg req = Deny BrowserFeatureReason)
   \<and>
   (header_contains req ''accept'' ''text/html'' \<and> header_contains req ''accept'' ''image/webp'' \<and>
      header_nonempty req ''accept-language'' \<and>
      header_contains req ''accept-encoding'' ''gzip'' \<and>
      header_contains req ''accept-encoding'' ''deflate'' \<and>
      header_nonempty req ''cache-control''
      \<longrightarrow> 5 \<le> featureScore req \<and> checkModernBrowserFeatures req \<and>
          validateDownloadRequest cfg req \<noteq> Deny BrowserFeatureReason)"
proof (intro conjI impI)
  assume a: "isFileDownload req \<and> flag cfg enableBrowserFeature \<and> \<not> referrer_allowed cfg req \<and>
      (flag cfg enableUserAgent \<longrightarrow> isValidBrowser (req_get req ''User-Agent'')) \<and>
      headers req ''accept'' = Some ''*/*'' \<and>
      (\<forall>name \<in> set scored_headers. name \<noteq> ''accept'' \<longrightarrow> \<not> header_present req name)"
  then show z: "featureScore req = 0"
    using featureScore_only_accept[of req] by blast
  from a z show "validateDownloadRequest cfg req = Deny BrowserFeatureReason"
    by (simp add: validate_unfold checkModernBrowserFeatures_def minScore_def)
next
  assume b: "header_contains req ''accept'' ''text/html'' \<and> header_contains req ''accept'' ''image/webp'' \<and>
      header_nonempty req ''accept-language'' \<and>
      header_contains req ''accept-encoding'' ''gzip'' \<and>
      header_contains req ''accept-encoding'' ''deflate'' \<and>
      header_nonempty req ''cache-control''"
  then show s: "5 \<le> featureScore req"
    using featureScore_five[of req] by blast
  then show c: "checkModernBrowserFeatures req"
    by (simp add: checkModernBrowserFeatures_def minScore_def)
  then show "validateDownloadRequest cfg req \<noteq> Deny BrowserFeatureReason"
    by (simp add: validateDownloadRequest_def Let_def)
qed

theorem feature_score_step_witness:
  "isFileDownload request_curl \<and> flag cfg_features_only enableBrowserFeature \<and>
   \<not> referrer_allowed cfg_features_only request_curl \<and>
   \<not> flag cfg_features_only enableUserAgent \<and>
   headers request_curl ''accept'' = Some ''*/*'' \<and>
   list_all (\<lambda>name. name = ''accept'' \<or> \<not> header_present request_curl name) scored_headers \<and>
   featureScore request_curl = 0 \<and>
   validateDownloadRequest cfg_features_only request_curl = Deny BrowserFeatureReason \<and>
   header_contains request_five_signals ''accept'' ''text/html'' \<and>
   header_contains request_five_signals ''accept'' ''image/webp'' \<and>
   header_nonempty request_five_signals ''accept-language'' \<and>
   header_contains request_five_signals ''accept-encoding'' ''gzip'' \<and>
   header_contains request_five_signals ''accept-encoding'' ''deflate'' \<and>
   header_nonempty request_five_signals ''cache-control'' \<and>
   5 \<le> featureScore request_five_signals \<and> checkModernBrowserFeatures request_five_signals \<and>
   validateDownloadRequest cfg_features_only request_five_signals \<noteq> Deny BrowserFeatureReason"
proof -
  have 1: "isFileDownload request_curl" by code_simp
  have 2: "flag cfg_features_only enableBrowserFeature" by code_simp
  have 3: "\<not> referrer_allowed cfg_features_only request_curl" by code_simp
  have 4: "\<not> flag cfg_features_only enableUserAgent" by code_simp
  have 5: "headers request_curl ''accept'' = Some ''*/*''" by code_simp
  have 6: "list_all (\<lambda>name. name = ''accept'' \<or> \<not> header_present request_curl name)
             scored_headers" by code_simp
  then have 7: "\<forall>name \<in> set scored_headers.
                  name \<noteq> ''accept'' \<longrightarrow> \<not> header_present request_curl name"
    by (auto simp: list_all_iff)
  have a: "featureScore request_curl = 0 \<and>
           validateDownloadRequest cfg_features_only request_curl = Deny BrowserFeatureReason"
    using feature_score_step[of request_curl cfg_features_only] 1 2 3 4 5 7 by blast
  have 8: "header_contains request_five_signals ''accept'' ''text/html''" by code_simp
  have 9: "header_contains request_five_signals ''accept'' ''image/webp''" by code_simp
  have 10: "header_nonempty request_five_signals ''accept-language''" by code_simp
  have 11: "header_contains request_five_signals ''accept-encoding'' ''gzip''" by code_simp
  have 12: "header_contains request_five_signals ''accept-encoding'' ''deflate''" by code_simp
  have 13: "header_nonempty request_five_signals ''cache-control''" by code_simp
  have b: "5 \<le> featureScore request_five_signals \<and>
           checkModernBrowserFeatures request_five_signals \<and>
           validateDownloadRequest cfg_features_only request_five_signals
             \<noteq> Deny BrowserFeatureReason"
    using feature_score_step[of request_five_signals cfg_features_only] 8 9 10 11 12 13
    by blast
  from 1 2 3 4 5 6 a 8 9 10 11 12 13 b show ?thesis by blast
qed

section \<open>The download gate: referrer presence, the challenge, disabled checks\<close>

text \<open>
  Claim C5 says that, with \<^verbatim>\<open>enableReferrer\<close> set, a download request without a referrer
  that passed the earlier checks is denied unless its path refers to the index or landing
  page. The code tests whether the path contains \<^verbatim>\<open>index.html\<close> anywhere, while its comment
  speaks of the index.html page: a request for \<^verbatim>\<open>/index.html.zip\<close>, which is an archive and
  not the index page, with no \<^verbatim>\<open>Referrer\<close> and no \<^verbatim>\<open>Referer\<close> header, skips the referrer
  check. It is allowed when only that check is enabled, and gets the challenge instead of
  the denial when all checks are enabled.
\<close>

theorem index_substring_skips_referrer_check:
  "isFileDownload request_index_zip \<and>
   extname (path request_index_zip) = ''.zip'' \<and>
   \<not> names_index_page (path request_index_zip) \<and>
   \<not> header_present request_index_zip ''referrer'' \<and>
   \<not> header_present request_index_zip ''referer'' \<and>
   str_includes (path request_index_zip) ''index.html'' \<and>
   flag cfg_referrer_only enableReferrer \<and>
   \<not> referrer_allowed cfg_referrer_only request_index_zip \<and>
   validateDownloadRequest cfg_referrer_only request_index_zip = Allow \<and>
   flag cfg_strict enableReferrer \<and>
   \<not> referrer_allowed cfg_strict request_index_zip \<and>
   isValidBrowser (req_get request_index_zip ''User-Agent'') \<and>
   checkModernBrowserFeatures request_index_zip \<and>
   validateDownloadRequest cfg_strict request_index_zip = Challenge"
proof -
  have 1: "isFileDownload request_index_zip" by code_simp
  have 2: "extname (path request_index_zip) = ''.zip''" by code_simp
  have 3: "\<not> names_index_page (path request_index_zip)" by code_simp
  have 4: "\<not> header_present request_index_zip ''referrer''" by code_simp
  have 5: "\<not> header_present request_index_zip ''referer''" by code_simp
  have 6: "str_includes (path request_index_zip) ''index.html''" by code_simp
  have 7: "flag cfg_referrer_only enableReferrer" by code_simp
  have 8: "\<not> referrer_allowed cfg_referrer_only request_index_zip" by code_simp
  have 9: "validateDownloadRequest cfg_referrer_only request_index_zip = Allow" by code_simp
  have 10: "flag cfg_strict enableReferrer" by code_simp
  have 11: "\<not> referrer_allowed cfg_strict request_index_zip" by code_simp
  have 12: "isValidBrowser (req_get request_index_zip ''User-Agent'')" by code_simp
  have 13: "checkModernBrowserFeatures request_index_zip" by code_simp
  have 14: "validateDownloadRequest cfg_strict request_index_zip = Challenge" by code_simp
  show ?thesis by (rule conjI 1 2 3 4 5 6 7 8 9 10 11 12 13 14)+
qed

text \<open>
  What the referrer check does, for every configuration and request: a download request
  that passed the earlier checks and carries neither referrer header is denied when its
  path does not contain \<^verbatim>\<open>index.html\<close>.
\<close>

theorem missing_referrer_denied:
  assumes "isFileDownload req" and "flag cfg enableReferrer"
    and "earlier_checks_pass cfg req"
    and "\<not> header_present req ''referrer''" and "\<not> header_present req ''referer''"
    and "\<not> str_includes (path req) ''index.html''"
  shows "validateDownloadRequest cfg req = Deny ReferrerReason"
proof -
  have nr: "\<not> truthy (referrer_of req)"
    using assms(4,5) by (simp add: referrer_of_eq js_or_def header_present_def)
  show ?thesis
    using assms(1,2,3,6) nr no_referrer_no_bypass[OF nr, of cfg]
    by (simp add: validate_unfold earlier_checks_pass_def)
qed

text \<open>
  Claim C6. The gate is a function of the configuration and the request alone. With
  \<^verbatim>\<open>enableJsCheck\<close> set, a download request that reaches the last step (no bypass, every
  earlier enabled check passing) and carries no \<^verbatim>\<open>jsEnabled\<close> cookie gets the challenge;
  the same request with the cookie the challenge page sets is allowed, and so is a third,
  identical one.
\<close>

theorem challenge_round_trip:
  assumes "reaches_js_step cfg req" and "flag cfg enableJsCheck"
    and "\<not> cookie_present req ''jsEnabled''"
  shows "validateDownloadRequest cfg req = Challenge \<and>
         validateDownloadRequest cfg (set_cookie req ''jsEnabled'' ''true'') = Allow \<and>
         map (validateDownloadRequest cfg)
           [req, set_cookie req ''jsEnabled'' ''true'', set_cookie req ''jsEnabled'' ''true'']
         = [Challenge, Allow, Allow]"
proof -
  have 1: "validateDownloadRequest cfg req = Challenge"
    using assms by (simp add: validate_js_step hasJsCheck_absent)
  have "reaches_js_step cfg (set_cookie req ''jsEnabled'' ''true'')"
    using assms(1) by (simp add: reaches_js_step_set_cookie)
  then have 2: "validateDownloadRequest cfg (set_cookie req ''jsEnabled'' ''true'') = Allow"
    by (simp add: validate_js_step hasJsCheck_set)
  from 1 2 show ?thesis by simp
qed

theorem challenge_round_trip_witness:
  "reaches_js_step cfg_strict request_browser \<and> flag cfg_strict enableJsCheck \<and>
   \<not> cookie_present request_browser ''jsEnabled'' \<and>
   validateDownloadRequest cfg_strict request_browser = Challenge \<and>
   validateDownloadRequest cfg_strict (set_cookie request_browser ''jsEnabled'' ''true'') = Allow \<and>
   map (validateDownloadRequest cfg_strict)
     [request_browser, set_cookie request_browser ''jsEnabled'' ''true'',
      set_cookie request_browser ''jsEnabled'' ''true'']
   = [Challenge, Allow, Allow]"
proof -
  have 1: "reaches_js_step cfg_strict request_browser" by code_simp
  have 2: "flag cfg_strict enableJsCheck" by code_simp
  have 3: "\<not> cookie_present request_browser ''jsEnabled''" by code_simp
  from 1 2 3 challenge_round_trip[OF 1 2 3] show ?thesis by blast
qed

text \<open>
  Claim C7. A check whose flag is false (or absent) never produces its outcome: no denial
  with the user-agent, feature or referrer reason, and no challenge. With all four flags
  false the gate allows every request, and an absent \<^verbatim>\<open>downloadCheck\<close> structure makes all
  four flags false.
\<close>

theorem disabled_checks_satisfied:
  "(\<not> flag cfg enableUserAgent \<longrightarrow> validateDownloadRequest cfg req \<noteq> Deny UserAgentReason) \<and>
   (\<not> flag cfg enableBrowserFeature \<longrightarrow>
      validateDownloadRequest cfg req \<noteq> Deny BrowserFeatureReason) \<and>
   (\<not> flag cfg enableReferrer \<longrightarrow> validateDownloadRequest cfg req \<noteq> Deny ReferrerReason) \<and>
   (\<not> flag cfg enableJsCheck \<longrightarrow> validateDownloadRequest cfg req \<noteq> Challenge) \<and>
   (\<not> flag cfg enableUserAgent \<and> \<not> flag cfg enableBrowserFeature \<and>
    \<not> flag cfg enableReferrer \<and> \<not> flag cfg enableJsCheck
      \<longrightarrow> validateDownloadRequest cfg req = Allow) \<and>
   (downloadCheck cfg = None \<longrightarrow>
      \<not> flag cfg enableUserAgent \<and> \<not> flag cfg enableBrowserFeature \<and>
      \<not> flag cfg enableReferrer \<and> \<not> flag cfg enableJsCheck \<and>
      validateDownloadRequest cfg req = Allow)"
  by (simp add: validateDownloadRequest_def Let_def flag_def)

theorem disabled_checks_satisfied_witness:
  "downloadCheck cfg_absent = None \<and> isFileDownload request_curl \<and>
   \<not> flag cfg_absent enableUserAgent \<and> \<not> flag cfg_absent enableBrowserFeature \<and>
   \<not> flag cfg_absent enableReferrer \<and> \<not> flag cfg_absent enableJsCheck \<and>
   validateDownloadRequest cfg_absent request_curl \<noteq> Deny UserAgentReason \<and>
   validateDownloadRequest cfg_absent request_curl \<noteq> Deny BrowserFeatureReason \<and>
   validateDownloadRequest cfg_absent request_curl \<noteq> Deny ReferrerReason \<and>
   validateDownloadRequest cfg_absent request_curl \<noteq> Challenge \<and>
   validateDownloadRequest cfg_absent request_curl = Allow"
proof -
  have 1: "downloadCheck cfg_absent = None" by (simp add: cfg_absent_def)
  have 2: "isFileDownload request_curl" by code_simp
  from 1 2 disabled_checks_satisfied[of cfg_absent request_curl] show ?thesis by simp
qed

section \<open>The address-information cache\<close>

text \<open>
  Claim C8 says the cache never holds more than \<open>MAX_CACHE_SIZE\<close> (100) addresses. The code
  tests the size and evicts before it awaits the provider, and stores the new entry after:
  with 99 addresses cached, two requests from two new addresses that both arrive before
  either lookup is answered both find 99 entries, neither evicts, and both store, so the
  cache holds 101 addresses. The same 101 requests, each answered before the next arrives,
  leave 100.
\<close>

theorem overlapping_misses_exceed_bound:
  "MAX_CACHE_SIZE = 100 \<and>
   map_size (ipInfoCache (cache (run idle overlapping_misses))) = 101 \<and>
   map_keys (ipInfoCache (cache (run idle overlapping_misses))) = map example_addr [0..<101] \<and>
   waiting (run idle overlapping_misses) = [] \<and>
   map_size (ipInfoCache (cache (run idle (one_by_one example_events)))) = 100"
proof -
  have 1: "MAX_CACHE_SIZE = 100" by (simp add: MAX_CACHE_SIZE_def)
  have 3: "map_keys (ipInfoCache (cache (run idle overlapping_misses)))
           = map example_addr [0..<101]"
    by (rule overlap_keys)
  have "map_size (ipInfoCache (cache (run idle overlapping_misses)))
        = length (map_keys (ipInfoCache (cache (run idle overlapping_misses))))"
    by (simp add: map_size_def map_keys_def)
  then have 2: "map_size (ipInfoCache (cache (run idle overlapping_misses))) = 101"
    by (simp only: 3) simp
  have 4: "waiting (run idle overlapping_misses) = []"
    using overlap_result by blast
  have "map_size (ipInfoCache (cache (run idle (one_by_one example_events))))
        = length (map_keys (ipInfoCache (cache (run idle (one_by_one example_events)))))"
    by (simp add: map_size_def map_keys_def)
  then have 5: "map_size (ipInfoCache (cache (run idle (one_by_one example_events)))) = 100"
    by (simp only: one_by_one_keys) simp
  show ?thesis by (rule conjI 1 2 3 4 5)+
qed

text \<open>
  For requests that do not overlap, each served to completion before the next arrives, the
  bound and the eviction rule hold: the cache never holds more than 100 addresses; a request from an
  address that is not cached, meeting a full cache, removes one cached address whose
  access time is the smallest from both maps and then stores the new address with the
  current time; and after 101 requests from distinct addresses at strictly increasing
  times the cache holds all addresses but the first, in their order of arrival, each with
  the time of its request.
\<close>

theorem sequential_bound_and_eviction:
  "MAX_CACHE_SIZE = 100 \<and>
   map_size (ipInfoCache (serve_all empty_cache evs)) \<le> MAX_CACHE_SIZE \<and>
   (map_size (ipInfoCache (serve_all empty_cache evs)) = MAX_CACHE_SIZE \<and>
    \<not> map_has (ipInfoCache (serve_all empty_cache evs)) (getRealIP req)
    \<longrightarrow> (\<exists>victim.
          oldest_in (ipAccessTimes (serve_all empty_cache evs)) victim \<and>
          map_has (ipInfoCache (serve_all empty_cache evs)) victim \<and>
          ipInfoCache (evict_oldest (serve_all empty_cache evs))
            = map_delete (ipInfoCache (serve_all empty_cache evs)) victim \<and>
          ipAccessTimes (evict_oldest (serve_all empty_cache evs))
            = map_delete (ipAccessTimes (serve_all empty_cache evs)) victim \<and>
          map_size (ipInfoCache (evict_oldest (serve_all empty_cache evs))) = MAX_CACHE_SIZE - 1 \<and>
          set (map_keys (ipInfoCache (snd (enrich (serve_all empty_cache evs) req now resp))))
            = insert (getRealIP req)
                (set (map_keys (ipInfoCache (serve_all empty_cache evs))) - {victim}) \<and>
          set (map_keys (ipAccessTimes (snd (enrich (serve_all empty_cache evs) req now resp))))
            = insert (getRealIP req)
                (set (map_keys (ipAccessTimes (serve_all empty_cache evs))) - {victim}) \<and>
          map_size (ipInfoCache (snd (enrich (serve_all empty_cache evs) req now resp)))
            = MAX_CACHE_SIZE \<and>
          map_get (ipAccessTimes (snd (enrich (serve_all empty_cache evs) req now resp)))
            (getRealIP req) = Some now)) \<and>
   (length evs' = MAX_CACHE_SIZE + 1 \<and> distinct (map addr_of evs') \<and>
    sorted_wrt (<) (map time_of evs')
    \<longrightarrow> map_keys (ipInfoCache (serve_all empty_cache evs')) = tl (map addr_of evs') \<and>
        map_keys (ipAccessTimes (serve_all empty_cache evs')) = tl (map addr_of evs') \<and>
        ipAccessTimes (serve_all empty_cache evs')
          = map (\<lambda>ev. (addr_of ev, time_of ev)) (tl evs') \<and>
        hd (map addr_of evs') \<notin> set (map_keys (ipInfoCache (serve_all empty_cache evs'))))"
proof (intro conjI impI)
  show "MAX_CACHE_SIZE = 100" by (simp add: MAX_CACHE_SIZE_def)
next
  show "map_size (ipInfoCache (serve_all empty_cache evs)) \<le> MAX_CACHE_SIZE"
    using reachable_inv[of evs] by (simp add: cache_inv_def)
next
  assume "map_size (ipInfoCache (serve_all empty_cache evs)) = MAX_CACHE_SIZE \<and>
    \<not> map_has (ipInfoCache (serve_all empty_cache evs)) (getRealIP req)"
  then show "\<exists>victim.
          oldest_in (ipAccessTimes (serve_all empty_cache evs)) victim \<and>
          map_has (ipInfoCache (serve_all empty_cache evs)) victim \<and>
          ipInfoCache (evict_oldest (serve_all empty_cache evs))
            = map_delete (ipInfoCache (serve_all empty_cache evs)) victim \<and>
          ipAccessTimes (evict_oldest (serve_all empty_cache evs))
            = map_delete (ipAccessTimes (serve_all empty_cache evs)) victim \<and>
          map_size (ipInfoCache (evict_oldest (serve_all empty_cache evs))) = MAX_CACHE_SIZE - 1 \<and>
          set (map_keys (ipInfoCache (snd (enrich (serve_all empty_cache evs) req now resp))))
            = insert (getRealIP req)
                (set (map_keys (ipInfoCache (serve_all empty_cache evs))) - {victim}) \<and>
          set (map_keys (ipAccessTimes (snd (enrich (serve_all empty_cache evs) req now resp))))
            = insert (getRealIP req)
                (set (map_keys (ipAccessTimes (serve_all empty_cache evs))) - {victim}) \<and>
          map_size (ipInfoCache (snd (enrich (serve_all empty_cache evs) req now resp)))
            = MAX_CACHE_SIZE \<and>
          map_get (ipAccessTimes (snd (enrich (serve_all empty_cache evs) req now resp)))
            (getRealIP req) = Some now"
    using miss_at_capacity[OF reachable_inv, of evs req now resp] by blast
next
  assume a: "length evs' = MAX_CACHE_SIZE + 1 \<and> distinct (map addr_of evs') \<and>
    sorted_wrt (<) (map time_of evs')"
  then have o: "map_keys (ipInfoCache (serve_all empty_cache evs')) = tl (map addr_of evs') \<and>
         map_keys (ipAccessTimes (serve_all empty_cache evs')) = tl (map addr_of evs') \<and>
         ipAccessTimes (serve_all empty_cache evs')
           = map (\<lambda>ev. (addr_of ev, time_of ev)) (tl evs')"
    using overflow[of evs'] by blast
  from o show "map_keys (ipInfoCache (serve_all empty_cache evs')) = tl (map addr_of evs')"
    by blast
  from o show "map_keys (ipAccessTimes (serve_all empty_cache evs')) = tl (map addr_of evs')"
    by blast
  from o show "ipAccessTimes (serve_all empty_cache evs')
          = map (\<lambda>ev. (addr_of ev, time_of ev)) (tl evs')"
    by blast
  from a have "evs' \<noteq> []" by auto
  with a have "hd (map addr_of evs') \<notin> set (tl (map addr_of evs'))"
    by (cases evs') auto
  with o show "hd (map addr_of evs') \<notin> set (map_keys (ipInfoCache (serve_all empty_cache evs')))"
    by simp
qed

theorem sequential_bound_and_eviction_example:
  "map_size (ipInfoCache (serve_all empty_cache (butlast example_events))) = MAX_CACHE_SIZE \<and>
   \<not> map_has (ipInfoCache (serve_all empty_cache (butlast example_events)))
       (getRealIP (peer (example_addr 100))) \<and>
   set (map_keys (ipInfoCache (snd (enrich (serve_all empty_cache (butlast example_events))
          (peer (example_addr 100)) 100 Failed))))
     = insert (example_addr 100) (set (map example_addr [0..<100]) - {example_addr 0}) \<and>
   length example_events = MAX_CACHE_SIZE + 1 \<and> distinct (map addr_of example_events) \<and>
   sorted_wrt (<) (map time_of example_events) \<and>
   map_keys (ipInfoCache (serve_all empty_cache example_events)) = map example_addr [1..<101] \<and>
   example_addr 0 \<notin> set (map_keys (ipInfoCache (serve_all empty_cache example_events)))"
proof -
  let ?st = "serve_all empty_cache (butlast example_events)"
  note bl = butlast_example
  have d100: "distinct (map addr_of (map example_event [0..<100]))"
    by (rule distinct_example) simp
  have f: "ipInfoCache ?st = map (\<lambda>ev. (addr_of ev, stored_of ev)) (map example_event [0..<100])"
    "ipAccessTimes ?st = map (\<lambda>ev. (addr_of ev, time_of ev)) (map example_event [0..<100])"
    using fill[OF d100] by (simp_all add: bl MAX_CACHE_SIZE_def)
  have k: "map_keys (ipInfoCache ?st) = map example_addr [0..<100]"
    using addrs_example[of 100] by (simp add: f map_keys_def comp_def)
  have h1: "map_size (ipInfoCache ?st) = MAX_CACHE_SIZE"
    by (simp add: f MAX_CACHE_SIZE_def map_size_def)
  have a100: "getRealIP (peer (example_addr 100)) = example_addr 100"
    using addr_of_example[of 100] by (simp add: addr_of_def example_event_def)
  have new: "example_addr 100 \<notin> set (map example_addr [0..<100])"
  proof
    assume "example_addr 100 \<in> set (map example_addr [0..<100])"
    then obtain x where x: "x < 100" "example_addr 100 = example_addr x" by auto
    then have "100 = x" using example_addr_inj[of 100 x] by simp
    with x show False by simp
  qed
  have h2: "\<not> map_has (ipInfoCache ?st) (getRealIP (peer (example_addr 100)))"
    using new map_get_None[of "ipInfoCache ?st" "example_addr 100"]
    by (simp only: a100 k map_has_def map_get_def) simp
  note h3 = length_example
  note h4 = distinct_example_events
  note h5 = increasing_example_events
  note inst = sequential_bound_and_eviction[of "butlast example_events" "peer (example_addr 100)"
      100 Failed example_events]
  from inst h1 h2 obtain victim where
    old: "oldest_in (ipAccessTimes ?st) victim"
    and keys: "set (map_keys (ipInfoCache (snd (enrich ?st (peer (example_addr 100)) 100 Failed))))
      = insert (getRealIP (peer (example_addr 100))) (set (map_keys (ipInfoCache ?st)) - {victim})"
    by blast
  have first: "(example_addr 0, 0) \<in> set (ipAccessTimes ?st)"
  proof -
    have "addr_of (example_event 0) = example_addr 0"
      by (rule addr_of_example) simp
    moreover have "time_of (example_event 0) = 0"
      by (simp add: time_of_def example_event_def)
    ultimately show ?thesis
      by (simp add: f(2) upt_100_Cons)
  qed
  have victim: "victim = example_addr 0"
  proof -
    from old obtain t where t: "map_get (ipAccessTimes ?st) victim = Some t"
      and least: "\<forall>(k', t') \<in> set (ipAccessTimes ?st). t \<le> t'"
      by (auto simp: oldest_in_def list_all_iff split: option.splits)
    from least first have t0: "t \<le> 0" by auto
    from t have "(victim, t) \<in> set (ipAccessTimes ?st)"
      by (simp add: map_get_def map_of_SomeD)
    then obtain n where n: "n < 100" "victim = addr_of (example_event n)"
      "t = time_of (example_event n)"
      unfolding f(2) by auto
    with t0 have "n = 0" by (simp add: time_of_def example_event_def)
    with n show ?thesis by (simp add: addr_of_example)
  qed
  have c3: "set (map_keys (ipInfoCache (snd (enrich ?st (peer (example_addr 100)) 100 Failed))))
      = insert (example_addr 100) (set (map example_addr [0..<100]) - {example_addr 0})"
    using keys by (simp only: a100 k victim)
  from inst h3 h4 h5 have
    o: "map_keys (ipInfoCache (serve_all empty_cache example_events)) = tl (map addr_of example_events)"
    and nh: "hd (map addr_of example_events)
             \<notin> set (map_keys (ipInfoCache (serve_all empty_cache example_events)))"
    by blast+
  from o have c4: "map_keys (ipInfoCache (serve_all empty_cache example_events))
                   = map example_addr [1..<101]"
    by (simp add: addrs_example_events)
  from nh have c5: "example_addr 0
                    \<notin> set (map_keys (ipInfoCache (serve_all empty_cache example_events)))"
    by (simp add: addrs_example_events)
  from h1 h2 c3 h3 h4 h5 c4 c5 show ?thesis by blast
qed

text \<open>
  Claim C9 concerns what a lookup of a cached address does. \<^verbatim>\<open>getIPInfo\<close> itself refreshes
  the access time on a hit, but the middleware, the only caller, reads the cache itself
  for a cached address and never reaches that branch: after a failed lookup for
  203.0.113.7 at time 1000, a second request from that address at time 2000 gets the stored
  absent marker without an external call, and the recorded access time is still 1000,
  where a call of \<^verbatim>\<open>getIPInfo\<close> would have recorded 2000 (lemmas \<open>enrich_hit\<close> and
  \<open>getIPInfo_hit\<close> state the two behaviours for every cache and address).
\<close>

theorem middleware_hit_keeps_access_time:
  "ipInfoCache cache_after_failure = [(''203.0.113.7'', None)] \<and>
   ipAccessTimes cache_after_failure = [(''203.0.113.7'', 1000)] \<and>
   requested cache_after_failure = [''203.0.113.7''] \<and>
   fst (enrich cache_after_failure (peer ''203.0.113.7'') 2000 Failed) = None \<and>
   requested (snd (enrich cache_after_failure (peer ''203.0.113.7'') 2000 Failed))
     = [''203.0.113.7''] \<and>
   ipAccessTimes (snd (enrich cache_after_failure (peer ''203.0.113.7'') 2000 Failed))
     = [(''203.0.113.7'', 1000)] \<and>
   ipAccessTimes (snd (getIPInfo cache_after_failure ''203.0.113.7'' 2000 Failed))
     = [(''203.0.113.7'', 2000)]"
proof -
  have 1: "ipInfoCache cache_after_failure = [(''203.0.113.7'', None)]" by code_simp
  have 2: "ipAccessTimes cache_after_failure = [(''203.0.113.7'', 1000)]" by code_simp
  have 3: "requested cache_after_failure = [''203.0.113.7'']" by code_simp
  have 4: "fst (enrich cache_after_failure (peer ''203.0.113.7'') 2000 Failed) = None"
    by code_simp
  have 5: "requested (snd (enrich cache_after_failure (peer ''203.0.113.7'') 2000 Failed))
           = [''203.0.113.7'']" by code_simp
  have 6: "ipAccessTimes (snd (enrich cache_after_failure (peer ''203.0.113.7'') 2000 Failed))
           = [(''203.0.113.7'', 1000)]" by code_simp
  have 7: "ipAccessTimes (snd (getIPInfo cache_after_failure ''203.0.113.7'' 2000 Failed))
           = [(''203.0.113.7'', 2000)]" by code_simp
  show ?thesis by (rule conjI 1 2 3 4 5 6 7)+
qed

text \<open>
  A consequence: a request from a cached address does not protect that address. After
  100 requests from distinct addresses, a further request from the first address, and
  then a request from a new address, the first address is the one evicted.
\<close>

lemma recently_used_address_evicted:
  "example_addr 0 \<notin> set (map_keys (ipInfoCache (serve_all empty_cache
      (butlast example_events @ [(peer (example_addr 0), 500, Failed), last example_events]))))"
proof -
  let ?st = "serve_all empty_cache (butlast example_events)"
  let ?hit = "(peer (example_addr 0), 500, Failed) :: event"
  have d100: "distinct (map addr_of (map example_event [0..<100]))"
    by (rule distinct_example) simp
  have f: "ipInfoCache ?st = map (\<lambda>ev. (addr_of ev, stored_of ev)) (map example_event [0..<100])"
    using fill[OF d100] by (simp add: butlast_example MAX_CACHE_SIZE_def)
  have k: "map_keys (ipInfoCache ?st) = map example_addr [0..<100]"
    using addrs_example[of 100] by (simp add: f map_keys_def comp_def)
  have a0: "addr_of ?hit = example_addr 0"
    using addr_of_example[of 0] by (simp add: addr_of_def example_event_def)
  have "example_addr 0 \<in> set (map_keys (ipInfoCache ?st))"
    by (simp add: k upt_100_Cons)
  then obtain stored where "map_get (ipInfoCache ?st) (addr_of ?hit) = Some stored"
    using map_get_None[of "ipInfoCache ?st" "example_addr 0"] by (auto simp: a0)
  then have same: "serve ?st ?hit = ?st" by (rule serve_hit)
  have "serve_all empty_cache (butlast example_events @ [?hit, last example_events])
        = serve (serve ?st ?hit) (last example_events)"
    by (simp add: serve_all_def)
  also have "\<dots> = serve ?st (last example_events)" by (simp only: same)
  also have "\<dots> = serve_all empty_cache (butlast example_events @ [last example_events])"
    by (simp add: serve_all_def)
  also have "\<dots> = serve_all empty_cache example_events"
    using split_example by simp
  finally have eq: "serve_all empty_cache (butlast example_events @ [?hit, last example_events])
                    = serve_all empty_cache example_events" .
  from overflow[OF length_example distinct_example_events increasing_example_events]
  have "map_keys (ipInfoCache (serve_all empty_cache example_events)) = map example_addr [1..<101]"
    by (simp add: addrs_example_events)
  moreover have "example_addr 0 \<notin> set (map example_addr [1..<101])"
    using distinct_example_events by (simp add: addrs_example_events)
  ultimately show ?thesis by (simp add: eq)
qed

text \<open>
  Claim C10. When the two maps hold the same addresses, they still do after an eviction,
  after a call of \<^verbatim>\<open>getIPInfo\<close> (a hit, or a miss with either outcome of the external call)
  and after the middleware served a request; and they do in every state reached from the
  empty cache, also when requests overlap.
\<close>

theorem key_sets_agree:
  "(set (map_keys (ipInfoCache st)) = set (map_keys (ipAccessTimes st))
    \<longrightarrow> set (map_keys (ipInfoCache (evict_oldest st)))
          = set (map_keys (ipAccessTimes (evict_oldest st))) \<and>
        set (map_keys (ipInfoCache (snd (getIPInfo st addr now resp))))
          = set (map_keys (ipAccessTimes (snd (getIPInfo st addr now resp)))) \<and>
        set (map_keys (ipInfoCache (snd (enrich st req now resp))))
          = set (map_keys (ipAccessTimes (snd (enrich st req now resp))))) \<and>
   set (map_keys (ipInfoCache (serve_all empty_cache evs)))
     = set (map_keys (ipAccessTimes (serve_all empty_cache evs))) \<and>
   set (map_keys (ipInfoCache (cache (run idle acts))))
     = set (map_keys (ipAccessTimes (cache (run idle acts))))"
proof (intro conjI impI)
  assume a: "set (map_keys (ipInfoCache st)) = set (map_keys (ipAccessTimes st))"
  then show "set (map_keys (ipInfoCache (evict_oldest st)))
          = set (map_keys (ipAccessTimes (evict_oldest st)))"
    by (simp add: evict_oldest_def set_keys_map_delete split: option.splits)
  from a show "set (map_keys (ipInfoCache (snd (getIPInfo st addr now resp))))
          = set (map_keys (ipAccessTimes (snd (getIPInfo st addr now resp))))"
    by (rule keys_agree_getIPInfo)
  from a show "set (map_keys (ipInfoCache (snd (enrich st req now resp))))
          = set (map_keys (ipAccessTimes (snd (enrich st req now resp))))"
    using keys_agree_getIPInfo[of st "getRealIP req" now resp]
    by (simp add: enrich_def Let_def split: option.splits)
next
  show "set (map_keys (ipInfoCache (serve_all empty_cache evs)))
     = set (map_keys (ipAccessTimes (serve_all empty_cache evs)))"
    using reachable_inv[of evs] by (simp add: cache_inv_def)
next
  show "set (map_keys (ipInfoCache (cache (run idle acts))))
     = set (map_keys (ipAccessTimes (cache (run idle acts))))"
    by (rule keys_agree_run)
qed

theorem key_sets_agree_witness:
  "set (map_keys (ipInfoCache cache_after_failure))
     = set (map_keys (ipAccessTimes cache_after_failure)) \<and>
   set (map_keys (ipInfoCache (snd (getIPInfo cache_after_failure ''203.0.113.7'' 2000 Failed))))
     = set (map_keys (ipAccessTimes
         (snd (getIPInfo cache_after_failure ''203.0.113.7'' 2000 Failed)))) \<and>
   set (map_keys (ipInfoCache (snd (enrich cache_after_failure (peer ''198.51.100.9'') 3000
         (Data \<lparr>country = Some ''NZ'', city = None, region = None\<rparr>)))))
     = set (map_keys (ipAccessTimes (snd (enrich cache_after_failure (peer ''198.51.100.9'') 3000
         (Data \<lparr>country = Some ''NZ'', city = None, region = None\<rparr>))))) \<and>
   map_keys (ipInfoCache (snd (enrich cache_after_failure (peer ''198.51.100.9'') 3000
         (Data \<lparr>country = Some ''NZ'', city = None, region = None\<rparr>))))
     = [''203.0.113.7'', ''198.51.100.9'']"
proof -
  have h: "set (map_keys (ipInfoCache cache_after_failure))
           = set (map_keys (ipAccessTimes cache_after_failure))"
    by code_simp
  have k: "map_keys (ipInfoCache (snd (enrich cache_after_failure (peer ''198.51.100.9'') 3000
         (Data \<lparr>country = Some ''NZ'', city = None, region = None\<rparr>))))
     = [''203.0.113.7'', ''198.51.100.9'']"
    by code_simp
  note a = key_sets_agree[of cache_after_failure "''203.0.113.7''" 2000 Failed]
  note b = key_sets_agree[of cache_after_failure _ _
      "Data \<lparr>country = Some ''NZ'', city = None, region = None\<rparr>" "peer ''198.51.100.9''"]
  from h a have 1: "set (map_keys (ipInfoCache
        (snd (getIPInfo cache_after_failure ''203.0.113.7'' 2000 Failed))))
     = set (map_keys (ipAccessTimes
        (snd (getIPInfo cache_after_failure ''203.0.113.7'' 2000 Failed))))"
    by blast
  from h b have 2: "set (map_keys (ipInfoCache (snd (enrich cache_after_failure
         (peer ''198.51.100.9'') 3000
         (Data \<lparr>country = Some ''NZ'', city = None, region = None\<rparr>)))))
     = set (map_keys (ipAccessTimes (snd (enrich cache_after_failure (peer ''198.51.100.9'') 3000
         (Data \<lparr>country = Some ''NZ'', city = None, region = None\<rparr>)))))"
    by blast
  from h 1 2 k show ?thesis by blast
qed

end
